theory Spec2Isabelle
  imports Main "HOL-Library.AList"
begin

section \<open>The signaling server of the video-call backend\<close>

text \<open>
  A shallow embedding of the core of \<^verbatim>\<open>src/signaling-server.js\<close>: the registry
  \<^verbatim>\<open>connectedUsers\<close>, the queue \<^verbatim>\<open>waitingUsers\<close>, the session store
  \<^verbatim>\<open>activeRooms\<close>, the socket handlers, the search timeout and the periodic cleanup.

  JavaScript objects are shared by reference: the registry, the \<^verbatim>\<open>users\<close> array of a
  \<^verbatim>\<open>Room\<close> and the closure of a search timeout may all hold the same \<^verbatim>\<open>User\<close> object,
  and \<^verbatim>\<open>register-user\<close> replaces the registry's object by a new one while the old one
  stays referenced elsewhere. So \<^verbatim>\<open>User\<close> objects live in an explicit store (a list that
  only grows, an address is an index), and every other structure holds addresses.

  A JavaScript \<^verbatim>\<open>Map\<close> is an association list in insertion order (\<open>AList.update\<close>
  replaces in place or appends, as \<^verbatim>\<open>Map.prototype.set\<close> does); a \<^verbatim>\<open>Set\<close> is a list
  without duplicates in insertion order.
\<close>

subsection \<open>Data\<close>

type_synonym socket_id = string
type_synonym addr = nat

text \<open>Opaque client payloads (\<^verbatim>\<open>sdp\<close>, \<^verbatim>\<open>type\<close>, \<^verbatim>\<open>candidate\<close>): any JSON-like value.\<close>

datatype jsval = JUndefined | JNull | JStr string | JNum int | JObj "(string \<times> jsval) list"

text \<open>The \<^verbatim>\<open>userInfo\<close> object of a \<^verbatim>\<open>register-user\<close> message; each field may be absent.\<close>

record userInfo =
  info_university :: "string option"
  info_gender :: "string option"
  info_year :: "string option"

record user =
  socketId :: socket_id
  userId :: string
  university :: string
  gender :: string
  year :: string
  joinedAt :: int
  isWaiting :: bool
  currentRoom :: "string option"
  partnerId :: "string option"

record room =
  roomId :: string
  users :: "addr list"
  createdAt :: int
  isActive :: bool

record prefs =
  sameUniversity :: bool
  sameGender :: bool
  maxWaitTime :: int

text \<open>What a handler reads from its environment: \<^verbatim>\<open>Date.now()\<close> and the text that
  \<^verbatim>\<open>Math.random().toString(36).substr(2, 9)\<close> yields. One handler run reads one clock value.\<close>

record env =
  now :: int
  random :: string

datatype out_msg =
    RegistrationSuccess string
  | ErrorMsg string
  | SearchingForPartner
  | PartnerFound string string string string
  | IncomingCall string string string string
  | PartnerSearchTimeout
  | CallAccepted string string
  | CallRejected string
  | Offer jsval jsval string
  | Answer jsval jsval string
  | IceCandidate jsval string
  | UserLeft string
  | Pong

text \<open>\<open>ToSocket c\<close> is \<^verbatim>\<open>socket.emit\<close> on the socket \<open>c\<close>; \<open>ToRoom n\<close> is
  \<^verbatim>\<open>io.to(n).emit\<close>, a broadcast to the socket.io room named \<open>n\<close>.\<close>

datatype target = ToSocket socket_id | ToRoom string

type_synonym emit = "target \<times> out_msg"

record state =
  connectedUsers :: "(socket_id \<times> addr) list"
  waitingUsers :: "socket_id list"
  activeRooms :: "(string \<times> room) list"
  heap :: "user list"
  timers :: "(socket_id \<times> addr) list"
  sockets :: "socket_id list"
  joined :: "(socket_id \<times> string) list"
  matchingPreferences :: prefs

datatype client_msg =
    RegisterUser string userInfo
  | FindRandomPartner
  | AcceptCall
  | RejectCall
  | OfferMsg jsval jsval
  | AnswerMsg jsval jsval
  | IceCandidateMsg jsval
  | EndCall
  | Ping

datatype event =
    Connect socket_id
  | Receive socket_id client_msg
  | Disconnect socket_id
  | TimerFires socket_id addr
  | CleanupTick

subsection \<open>JavaScript primitives\<close>

definition set_add :: "'a \<Rightarrow> 'a list \<Rightarrow> 'a list" where
  "set_add x xs = (if x \<in> set xs then xs else xs @ [x])"

definition set_delete :: "'a \<Rightarrow> 'a list \<Rightarrow> 'a list" where
  "set_delete x xs = removeAll x xs"

text \<open>\<^verbatim>\<open>x || ''\<close> on a string that may be absent: absent and empty both give the empty string.\<close>

definition or_empty :: "string option \<Rightarrow> string" where
  "or_empty x = (case x of None \<Rightarrow> [] | Some v \<Rightarrow> (if v = [] then [] else v))"

text \<open>Truthiness of \<^verbatim>\<open>user.currentRoom\<close>: \<^verbatim>\<open>null\<close> and the empty string are falsy.\<close>

definition truthy :: "string option \<Rightarrow> bool" where
  "truthy x = (case x of None \<Rightarrow> False | Some v \<Rightarrow> v \<noteq> [])"

definition digit_char :: "nat \<Rightarrow> char" where
  "digit_char d = char_of (48 + d)"

fun show_nat :: "nat \<Rightarrow> string" where
  "show_nat n = (if n < 10 then [digit_char n] else show_nat (n div 10) @ [digit_char (n mod 10)])"

definition show_int :: "int \<Rightarrow> string" where
  "show_int i = (if i < 0 then CHR ''-'' # show_nat (nat (- i)) else show_nat (nat i))"

subsection \<open>socket.io: live sockets and rooms\<close>

text \<open>
  The library keeps the live sockets (\<^verbatim>\<open>io.sockets.sockets\<close>) and the rooms each has
  joined. Every socket joins the room named by its own id when it connects, which is what
  \<^verbatim>\<open>io.to(socketId)\<close> addresses. A broadcast writes to the members of the room in the
  order in which they joined it; \<open>joined\<close> keeps the calls of \<^verbatim>\<open>socket.join\<close> in that
  order.
\<close>

definition socket_join :: "socket_id \<Rightarrow> string \<Rightarrow> state \<Rightarrow> state" where
  "socket_join c n s = s\<lparr>joined := set_add (c, n) (joined s)\<rparr>"

definition recipients :: "state \<Rightarrow> target \<Rightarrow> socket_id list" where
  "recipients s t = (case t of
      ToSocket c \<Rightarrow> (if c \<in> set (sockets s) then [c] else [])
    | ToRoom n \<Rightarrow>
        filter (\<lambda>c. c = n) (sockets s) @
        filter (\<lambda>c. c \<in> set (sockets s) \<and> c \<noteq> n)
          (map fst (filter (\<lambda>x. snd x = n) (joined s))))"

definition deliver :: "state \<Rightarrow> emit list \<Rightarrow> (socket_id \<times> out_msg) list" where
  "deliver s es = concat (map (\<lambda>(t, m). map (\<lambda>c. (c, m)) (recipients s t)) es)"

subsection \<open>Classes and helpers of the server\<close>

definition User :: "socket_id \<Rightarrow> string \<Rightarrow> userInfo \<Rightarrow> int \<Rightarrow> user" where
  "User sid uid info t =
     \<lparr>socketId = sid, userId = uid,
      university = or_empty (info_university info),
      gender = or_empty (info_gender info),
      year = or_empty (info_year info),
      joinedAt = t, isWaiting = False, currentRoom = None, partnerId = None\<rparr>"

definition Room :: "string \<Rightarrow> addr \<Rightarrow> addr \<Rightarrow> int \<Rightarrow> room" where
  "Room rid user1 user2 t = \<lparr>roomId = rid, users = [user1, user2], createdAt = t, isActive = True\<rparr>"

definition getOtherUser :: "user list \<Rightarrow> room \<Rightarrow> string \<Rightarrow> addr option" where
  "getOtherUser h r uid = find (\<lambda>a. userId (h ! a) \<noteq> uid) (users r)"

definition generateRoomId :: "env \<Rightarrow> string" where
  "generateRoomId e = ''room_'' @ random e @ ''_'' @ show_int (now e)"

definition areUsersCompatible :: "prefs \<Rightarrow> user \<Rightarrow> user \<Rightarrow> bool" where
  "areUsersCompatible p user1 user2 =
     (if userId user1 = userId user2 then False
      else if sameUniversity p \<and> university user1 \<noteq> university user2 then False
      else if sameGender p \<and> gender user1 \<noteq> gender user2 then False
      else True)"

fun findPartner_loop :: "state \<Rightarrow> user \<Rightarrow> socket_id list \<Rightarrow> addr option" where
  "findPartner_loop s u [] = None"
| "findPartner_loop s u (w # ws) =
     (case map_of (connectedUsers s) w of
        Some p \<Rightarrow> (if areUsersCompatible (matchingPreferences s) u (heap s ! p) then Some p
                   else findPartner_loop s u ws)
      | None \<Rightarrow> findPartner_loop s u ws)"

definition findPartner :: "state \<Rightarrow> user \<Rightarrow> addr option" where
  "findPartner s u = findPartner_loop s u (waitingUsers s)"

definition maxInactiveTime :: int where
  "maxInactiveTime = 5 * 60 * 1000"

definition cleanup_user :: "int \<Rightarrow> socket_id \<times> addr \<Rightarrow> state \<Rightarrow> state" where
  "cleanup_user t entry s =
     (case entry of (sid, a) \<Rightarrow>
        if t - joinedAt (heap s ! a) > maxInactiveTime \<and> \<not> truthy (currentRoom (heap s ! a))
        then s\<lparr>connectedUsers := AList.delete sid (connectedUsers s),
               waitingUsers := set_delete sid (waitingUsers s)\<rparr>
        else s)"

definition cleanupInactiveUsers :: "int \<Rightarrow> state \<Rightarrow> state" where
  "cleanupInactiveUsers t s = fold (cleanup_user t) (connectedUsers s) s"

definition cleanup_room :: "string \<times> room \<Rightarrow> state \<Rightarrow> state" where
  "cleanup_room entry s =
     (case entry of (rid, r) \<Rightarrow>
        if filter (\<lambda>a. map_of (connectedUsers s) (socketId (heap s ! a)) \<noteq> None) (users r) = []
        then s\<lparr>activeRooms := AList.delete rid (activeRooms s)\<rparr>
        else s)"

definition cleanupEmptyRooms :: "state \<Rightarrow> state" where
  "cleanupEmptyRooms s = fold cleanup_room (activeRooms s) s"

definition default_prefs :: prefs where
  "default_prefs = \<lparr>sameUniversity = False, sameGender = False, maxWaitTime = 30000\<rparr>"

definition init_with :: "prefs \<Rightarrow> state" where
  "init_with p =
     \<lparr>connectedUsers = [], waitingUsers = [], activeRooms = [], heap = [], timers = [],
      sockets = [], joined = [], matchingPreferences = p\<rparr>"

definition init :: state where
  "init = init_with default_prefs"

subsection \<open>The socket handlers\<close>

text \<open>Every handler takes the state and the id of the socket it was installed on
  (\<^verbatim>\<open>socket.id\<close> of the closure) and returns the new state with the messages emitted,
  in order. The message payloads are taken to be objects with the fields the protocol
  names (\<^verbatim>\<open>data\<close> and \<^verbatim>\<open>data.userInfo\<close> are dereferenced unguarded by the source); a
  field may hold any value. Logging is left out.

  \<^verbatim>\<open>setTimeout\<close> puts the closure, that is the socket id and the \<^verbatim>\<open>User\<close> object it
  captured, among the pending timers; the source never clears a timer. The delay
  \<^verbatim>\<open>maxWaitTime\<close> is not modelled: a pending timer fires at some later event.\<close>

definition registerUser :: "state \<Rightarrow> socket_id \<Rightarrow> string \<Rightarrow> userInfo \<Rightarrow> env \<Rightarrow> state \<times> emit list" where
  "registerUser s sid uid info e =
     (let a = length (heap s);
          u = User sid uid info (now e)
      in (s\<lparr>heap := heap s @ [u],
            connectedUsers := AList.update sid a (connectedUsers s)\<rparr>,
          [(ToSocket sid, RegistrationSuccess uid)]))"

definition searchTimeout :: "state \<Rightarrow> socket_id \<Rightarrow> addr \<Rightarrow> state \<times> emit list" where
  "searchTimeout s sid a =
     (if isWaiting (heap s ! a) \<and> sid \<in> set (waitingUsers s)
      then (s\<lparr>waitingUsers := set_delete sid (waitingUsers s),
              heap := (heap s)[a := (heap s ! a)\<lparr>isWaiting := False\<rparr>]\<rparr>,
            [(ToSocket sid, PartnerSearchTimeout)])
      else (s, []))"

definition matchUsers :: "state \<Rightarrow> socket_id \<Rightarrow> addr \<Rightarrow> addr \<Rightarrow> env \<Rightarrow> state \<times> emit list" where
  "matchUsers s sid a p e =
     (let w1 = set_delete (socketId (heap s ! a)) (waitingUsers s);
          w2 = set_delete (socketId (heap s ! p)) w1;
          rid = generateRoomId e;
          r = Room rid a p (now e);
          rooms = AList.update rid r (activeRooms s);
          h1 = (heap s)[a := (heap s ! a)\<lparr>currentRoom := Some rid,
                                          partnerId := Some (userId (heap s ! p)),
                                          isWaiting := False\<rparr>];
          h2 = h1[p := (h1 ! p)\<lparr>currentRoom := Some rid,
                                partnerId := Some (userId (h1 ! a)),
                                isWaiting := False\<rparr>];
          s1 = s\<lparr>waitingUsers := w2, activeRooms := rooms, heap := h2\<rparr>;
          s2 = socket_join sid rid s1;
          s3 = (if socketId (h2 ! p) \<in> set (sockets s2)
                then socket_join (socketId (h2 ! p)) rid s2 else s2)
      in (s3,
          [(ToSocket sid,
              PartnerFound rid (userId (h2 ! p)) (university (h2 ! p)) (year (h2 ! p))),
           (ToRoom (socketId (h2 ! p)),
              IncomingCall rid (userId (h2 ! a)) (university (h2 ! a)) (year (h2 ! a)))]))"

definition findRandomPartner :: "state \<Rightarrow> socket_id \<Rightarrow> env \<Rightarrow> state \<times> emit list" where
  "findRandomPartner s sid e =
     (case map_of (connectedUsers s) sid of
        None \<Rightarrow> (s, [(ToSocket sid, ErrorMsg ''User not registered'')])
      | Some a \<Rightarrow>
          if isWaiting (heap s ! a)
          then (s, [(ToSocket sid, ErrorMsg ''Already searching for partner'')])
          else (case findPartner s (heap s ! a) of
                  Some p \<Rightarrow> matchUsers s sid a p e
                | None \<Rightarrow>
                    (s\<lparr>heap := (heap s)[a := (heap s ! a)\<lparr>isWaiting := True\<rparr>],
                       waitingUsers := set_add sid (waitingUsers s),
                       timers := timers s @ [(sid, a)]\<rparr>,
                     [(ToSocket sid, SearchingForPartner)])))"

definition acceptCall :: "state \<Rightarrow> socket_id \<Rightarrow> state \<times> emit list" where
  "acceptCall s sid =
     (case map_of (connectedUsers s) sid of
        None \<Rightarrow> (s, [(ToSocket sid, ErrorMsg ''No active call to accept'')])
      | Some a \<Rightarrow>
          if \<not> truthy (currentRoom (heap s ! a))
          then (s, [(ToSocket sid, ErrorMsg ''No active call to accept'')])
          else (case map_of (activeRooms s) (the (currentRoom (heap s ! a))) of
                  None \<Rightarrow> (s, [(ToSocket sid, ErrorMsg ''Room not found'')])
                | Some r \<Rightarrow>
                    (case getOtherUser (heap s) r (userId (heap s ! a)) of
                       None \<Rightarrow> (s, [])
                     | Some p \<Rightarrow>
                         (s, [(ToRoom (roomId r),
                               CallAccepted (roomId r) (userId (heap s ! a)))]))))"

text \<open>Clearing the session fields of the registry's object for a socket id, if there is one
  (\<^verbatim>\<open>partnerUser.currentRoom = null; partnerUser.partnerId = null\<close>).\<close>

definition clear_partner :: "state \<Rightarrow> socket_id \<Rightarrow> user list \<Rightarrow> user list" where
  "clear_partner s psid h =
     (case map_of (connectedUsers s) psid of
        None \<Rightarrow> h
      | Some q \<Rightarrow> h[q := (h ! q)\<lparr>currentRoom := None, partnerId := None\<rparr>])"

definition rejectCall :: "state \<Rightarrow> socket_id \<Rightarrow> state \<times> emit list" where
  "rejectCall s sid =
     (case map_of (connectedUsers s) sid of
        None \<Rightarrow> (s, [])
      | Some a \<Rightarrow>
          if \<not> truthy (currentRoom (heap s ! a)) then (s, [])
          else (case map_of (activeRooms s) (the (currentRoom (heap s ! a))) of
                  None \<Rightarrow> (s, [])
                | Some r \<Rightarrow>
                    (case getOtherUser (heap s) r (userId (heap s ! a)) of
                       None \<Rightarrow> (s, [])
                     | Some p \<Rightarrow>
                         (let h1 = (heap s)[a := (heap s ! a)\<lparr>currentRoom := None,
                                                              partnerId := None\<rparr>];
                              h2 = clear_partner s (socketId (h1 ! p)) h1
                          in (s\<lparr>activeRooms := AList.delete (roomId r) (activeRooms s),
                                heap := h2\<rparr>,
                              [(ToRoom (socketId (heap s ! p)),
                                CallRejected (userId (heap s ! a)))])))))"

text \<open>The three relays differ only in the message they build from the sender's user id.\<close>

definition relay :: "state \<Rightarrow> socket_id \<Rightarrow> (string \<Rightarrow> out_msg) \<Rightarrow> state \<times> emit list" where
  "relay s sid mk =
     (case map_of (connectedUsers s) sid of
        None \<Rightarrow> (s, [])
      | Some a \<Rightarrow>
          if \<not> truthy (currentRoom (heap s ! a)) then (s, [])
          else (case map_of (activeRooms s) (the (currentRoom (heap s ! a))) of
                  None \<Rightarrow> (s, [])
                | Some r \<Rightarrow>
                    (case getOtherUser (heap s) r (userId (heap s ! a)) of
                       None \<Rightarrow> (s, [])
                     | Some p \<Rightarrow>
                         (s, [(ToRoom (socketId (heap s ! p)), mk (userId (heap s ! a)))]))))"

definition offer :: "state \<Rightarrow> socket_id \<Rightarrow> jsval \<Rightarrow> jsval \<Rightarrow> state \<times> emit list" where
  "offer s sid sdp ty = relay s sid (Offer sdp ty)"

definition answer :: "state \<Rightarrow> socket_id \<Rightarrow> jsval \<Rightarrow> jsval \<Rightarrow> state \<times> emit list" where
  "answer s sid sdp ty = relay s sid (Answer sdp ty)"

definition iceCandidate :: "state \<Rightarrow> socket_id \<Rightarrow> jsval \<Rightarrow> state \<times> emit list" where
  "iceCandidate s sid cand = relay s sid (IceCandidate cand)"

definition endCall :: "state \<Rightarrow> socket_id \<Rightarrow> state \<times> emit list" where
  "endCall s sid =
     (case map_of (connectedUsers s) sid of
        None \<Rightarrow> (s, [])
      | Some a \<Rightarrow>
          if \<not> truthy (currentRoom (heap s ! a)) then (s, [])
          else (case map_of (activeRooms s) (the (currentRoom (heap s ! a))) of
                  None \<Rightarrow> (s, [])
                | Some r \<Rightarrow>
                    (let partner = getOtherUser (heap s) r (userId (heap s ! a));
                         out = (case partner of
                                  None \<Rightarrow> []
                                | Some p \<Rightarrow> [(ToRoom (socketId (heap s ! p)),
                                              UserLeft (userId (heap s ! a)))]);
                         h1 = (heap s)[a := (heap s ! a)\<lparr>currentRoom := None,
                                                         partnerId := None\<rparr>];
                         h2 = (case partner of
                                 None \<Rightarrow> h1
                               | Some p \<Rightarrow> clear_partner s (socketId (h1 ! p)) h1)
                     in (s\<lparr>activeRooms := AList.delete (roomId r) (activeRooms s),
                           heap := h2\<rparr>, out))))"

definition disconnect :: "state \<Rightarrow> socket_id \<Rightarrow> state \<times> emit list" where
  "disconnect s sid =
     (case map_of (connectedUsers s) sid of
        None \<Rightarrow> (s, [])
      | Some a \<Rightarrow>
          (let s1 = s\<lparr>waitingUsers := set_delete sid (waitingUsers s)\<rparr>;
               (s2, out) =
                 (if truthy (currentRoom (heap s1 ! a))
                  then (case map_of (activeRooms s1) (the (currentRoom (heap s1 ! a))) of
                          None \<Rightarrow> (s1, [])
                        | Some r \<Rightarrow>
                            (let (h1, o1) =
                                   (case getOtherUser (heap s1) r (userId (heap s1 ! a)) of
                                      None \<Rightarrow> (heap s1, [])
                                    | Some p \<Rightarrow>
                                        (clear_partner s1 (socketId (heap s1 ! p)) (heap s1),
                                         [(ToRoom (socketId (heap s1 ! p)),
                                           UserLeft (userId (heap s1 ! a)))]))
                             in (s1\<lparr>heap := h1,
                                    activeRooms := AList.delete (roomId r) (activeRooms s1)\<rparr>,
                                 o1)))
                  else (s1, []))
           in (s2\<lparr>connectedUsers := AList.delete sid (connectedUsers s2)\<rparr>, out)))"

definition ping :: "state \<Rightarrow> socket_id \<Rightarrow> state \<times> emit list" where
  "ping s sid = (s, [(ToSocket sid, Pong)])"

subsection \<open>Events\<close>

fun handle :: "state \<Rightarrow> socket_id \<Rightarrow> env \<Rightarrow> client_msg \<Rightarrow> state \<times> emit list" where
  "handle s sid e (RegisterUser uid info) = registerUser s sid uid info e"
| "handle s sid e FindRandomPartner = findRandomPartner s sid e"
| "handle s sid e AcceptCall = acceptCall s sid"
| "handle s sid e RejectCall = rejectCall s sid"
| "handle s sid e (OfferMsg sdp ty) = offer s sid sdp ty"
| "handle s sid e (AnswerMsg sdp ty) = answer s sid sdp ty"
| "handle s sid e (IceCandidateMsg cand) = iceCandidate s sid cand"
| "handle s sid e EndCall = endCall s sid"
| "handle s sid e Ping = ping s sid"

text \<open>
  One event runs to completion before the next. A message is handled only for a live
  socket; a disconnecting socket has left its rooms and the table of live sockets when its
  \<^verbatim>\<open>disconnect\<close> handler runs; a search timeout fires once, for the socket id and the
  \<^verbatim>\<open>User\<close> object its closure captured; the cleanup tick runs both sweeps.
\<close>

fun step :: "state \<Rightarrow> env \<times> event \<Rightarrow> state \<times> emit list" where
  "step s (e, Connect c) =
     (if c \<in> set (sockets s) then (s, []) else (s\<lparr>sockets := sockets s @ [c]\<rparr>, []))"
| "step s (e, Receive c m) =
     (if c \<in> set (sockets s) then handle s c e m else (s, []))"
| "step s (e, Disconnect c) =
     (if c \<in> set (sockets s)
      then disconnect (s\<lparr>sockets := removeAll c (sockets s),
                         joined := filter (\<lambda>(c', n). c' \<noteq> c) (joined s)\<rparr>) c
      else (s, []))"
| "step s (e, TimerFires c a) =
     (if (c, a) \<in> set (timers s)
      then searchTimeout (s\<lparr>timers := remove1 (c, a) (timers s)\<rparr>) c a
      else (s, []))"
| "step s (e, CleanupTick) = (cleanupEmptyRooms (cleanupInactiveUsers (now e) s), [])"

text \<open>A run: the final state, and everything delivered, in order, as
  (receiving socket, message).\<close>

fun exec :: "state \<Rightarrow> (env \<times> event) list \<Rightarrow> state" where
  "exec s [] = s"
| "exec s (x # xs) = exec (fst (step s x)) xs"

definition delivered :: "state \<Rightarrow> env \<times> event \<Rightarrow> (socket_id \<times> out_msg) list" where
  "delivered s x = (case step s x of (s', out) \<Rightarrow> deliver s' out)"

fun all_delivered :: "state \<Rightarrow> (env \<times> event) list \<Rightarrow> (socket_id \<times> out_msg) list" where
  "all_delivered s [] = []"
| "all_delivered s (x # xs) = delivered s x @ all_delivered (fst (step s x)) xs"

subsection \<open>Vocabulary of the properties\<close>

text \<open>\<^verbatim>\<open>connectedUsers.get(c)\<close>: the registry's current \<^verbatim>\<open>User\<close> object of a connection.\<close>

definition lookup :: "state \<Rightarrow> socket_id \<Rightarrow> user option" where
  "lookup s c = map_option (\<lambda>a. heap s ! a) (map_of (connectedUsers s) c)"

text \<open>The session a connection holds, as every relay handler resolves it: the registry has
  a user for the connection, its \<^verbatim>\<open>currentRoom\<close> is set, and the store has that room.\<close>

definition activeSession :: "state \<Rightarrow> socket_id \<Rightarrow> room option" where
  "activeSession s c =
     (case map_of (connectedUsers s) c of
        None \<Rightarrow> None
      | Some a \<Rightarrow> (if truthy (currentRoom (heap s ! a))
                   then map_of (activeRooms s) (the (currentRoom (heap s ! a)))
                   else None))"

text \<open>The fields of a \<^verbatim>\<open>User\<close> that no statement of the server assigns after the
  constructor has run.\<close>

definition frozen :: "user \<Rightarrow> socket_id \<times> string \<times> string \<times> string \<times> string \<times> int" where
  "frozen u = (socketId u, userId u, university u, gender u, year u, joinedAt u)"

definition heap_extends :: "user list \<Rightarrow> user list \<Rightarrow> bool" where
  "heap_extends h h' \<longleftrightarrow>
     length h \<le> length h' \<and> (\<forall>a < length h. frozen (h' ! a) = frozen (h ! a))"

definition is_room_name :: "string \<Rightarrow> bool" where
  "is_room_name n = (take 5 n = ''room_'')"

definition is_match_notice :: "out_msg \<Rightarrow> bool" where
  "is_match_notice m = (case m of PartnerFound _ _ _ _ \<Rightarrow> True | IncomingCall _ _ _ _ \<Rightarrow> True | _ \<Rightarrow> False)"

text \<open>
  What the server takes from its environment without checking it: socket.io hands out
  connection ids that do not look like room ids, and \<^verbatim>\<open>generateRoomId\<close> (a random
  chunk and the clock) does not return an id that some \<^verbatim>\<open>User\<close> object still refers to.
\<close>

fun env_ok :: "state \<Rightarrow> env \<times> event \<Rightarrow> bool" where
  "env_ok s (e, Connect c) = (\<not> is_room_name c)"
| "env_ok s (e, Receive c FindRandomPartner) =
     (\<forall>u \<in> set (heap s). currentRoom u \<noteq> Some (generateRoomId e))"
| "env_ok s (e, ev) = True"

fun run_ok :: "state \<Rightarrow> (env \<times> event) list \<Rightarrow> bool" where
  "run_ok s [] = True"
| "run_ok s (x # xs) = (env_ok s x \<and> run_ok (fst (step s x)) xs)"

text \<open>Invariants of the reachable states.\<close>

definition inv_reg :: "state \<Rightarrow> bool" where
  "inv_reg s \<longleftrightarrow>
     (\<forall>c a. map_of (connectedUsers s) c = Some a \<longrightarrow>
        a < length (heap s) \<and> socketId (heap s ! a) = c \<and> c \<in> set (sockets s))"

definition inv_names :: "state \<Rightarrow> bool" where
  "inv_names s \<longleftrightarrow>
     (\<forall>u \<in> set (heap s). \<not> is_room_name (socketId u)) \<and>
     (\<forall>c \<in> set (sockets s). \<not> is_room_name c) \<and>
     (\<forall>x \<in> set (joined s). is_room_name (snd x))"

definition inv_rooms :: "state \<Rightarrow> bool" where
  "inv_rooms s \<longleftrightarrow>
     (\<forall>k r. map_of (activeRooms s) k = Some r \<longrightarrow>
        roomId r = k \<and>
        (\<exists>x y. users r = [x, y] \<and> x < length (heap s) \<and> y < length (heap s) \<and>
               userId (heap s ! x) \<noteq> userId (heap s ! y) \<and>
               socketId (heap s ! x) \<noteq> socketId (heap s ! y)))"

definition inv_session :: "state \<Rightarrow> bool" where
  "inv_session s \<longleftrightarrow>
     (\<forall>c a k r. map_of (connectedUsers s) c = Some a \<longrightarrow>
        currentRoom (heap s ! a) = Some k \<longrightarrow>
        map_of (activeRooms s) k = Some r \<longrightarrow>
        a \<in> set (users r) \<and> (c, k) \<in> set (joined s))"

definition inv :: "state \<Rightarrow> bool" where
  "inv s \<longleftrightarrow> inv_reg s \<and> inv_names s \<and> inv_rooms s \<and> inv_session s"

text \<open>A handler that only clears session fields: same objects, same frozen fields, and
  every \<^verbatim>\<open>currentRoom\<close> is either what it was or \<^verbatim>\<open>null\<close>.\<close>

definition heap_clears :: "user list \<Rightarrow> user list \<Rightarrow> bool" where
  "heap_clears h h' \<longleftrightarrow>
     length h' = length h \<and>
     (\<forall>a < length h. frozen (h' ! a) = frozen (h ! a) \<and>
        (currentRoom (h' ! a) = None \<or> currentRoom (h' ! a) = currentRoom (h ! a)))"

text \<open>
  The queue as a view of the searching flag: a connection is in \<^verbatim>\<open>waitingUsers\<close> exactly
  when the registry has a participant for it whose \<^verbatim>\<open>isWaiting\<close> is set. The pending
  timeouts hold the object their closure captured; such an object, while flagged as
  searching, is the registry's object of its connection unless the connection has none.
  \<open>register_ok\<close> describes a \<^verbatim>\<open>register-user\<close> that arrives on a connection with no search
  under way: the connection is not queued and no pending timeout of it holds a searching
  object.
\<close>

definition queue_matches :: "state \<Rightarrow> bool" where
  "queue_matches s \<longleftrightarrow>
     (\<forall>c. c \<in> set (waitingUsers s) \<longleftrightarrow>
          (\<exists>a. map_of (connectedUsers s) c = Some a \<and> isWaiting (heap s ! a)))"

definition inv_timers :: "state \<Rightarrow> bool" where
  "inv_timers s \<longleftrightarrow>
     (\<forall>c a. (c, a) \<in> set (timers s) \<longrightarrow>
        a < length (heap s) \<and> socketId (heap s ! a) = c \<and>
        (isWaiting (heap s ! a) \<longrightarrow>
           map_of (connectedUsers s) c = Some a \<or> map_of (connectedUsers s) c = None))"

fun register_ok :: "state \<Rightarrow> env \<times> event \<Rightarrow> bool" where
  "register_ok s (e, Receive c (RegisterUser uid info)) =
     (c \<notin> set (waitingUsers s) \<and> (\<forall>x \<in> set (timers s). fst x = c \<longrightarrow> \<not> isWaiting (heap s ! snd x)))"
| "register_ok s (e, ev) = True"

fun registers_ok :: "state \<Rightarrow> (env \<times> event) list \<Rightarrow> bool" where
  "registers_ok s [] = True"
| "registers_ok s (x # xs) = (register_ok s x \<and> registers_ok (fst (step s x)) xs)"

definition inv_queue :: "state \<Rightarrow> bool" where
  "inv_queue s \<longleftrightarrow> queue_matches s \<and> inv_timers s"

text \<open>A handler that leaves the searching flags alone: same objects, same socket ids, same
  \<^verbatim>\<open>isWaiting\<close>.\<close>

definition same_waiting :: "user list \<Rightarrow> user list \<Rightarrow> bool" where
  "same_waiting h h' \<longleftrightarrow>
     length h' = length h \<and>
     (\<forall>a < length h. socketId (h' ! a) = socketId (h ! a) \<and> isWaiting (h' ! a) = isWaiting (h ! a))"

text \<open>
  No handler calls \<^verbatim>\<open>socket.leave\<close>: a socket stays in the socket.io room of a session
  after the session is closed, until it disconnects. For the room broadcast of
  \<^verbatim>\<open>accept-call\<close> the runs considered are those in which \<^verbatim>\<open>generateRoomId\<close> does not
  return the name of a room that some live socket is still in; then the sockets in the room
  of a stored session sit on connections of its two members.
\<close>

definition inv_joined :: "state \<Rightarrow> bool" where
  "inv_joined s \<longleftrightarrow>
     (\<forall>x k r. (x, k) \<in> set (joined s) \<longrightarrow> map_of (activeRooms s) k = Some r \<longrightarrow>
        (\<exists>a \<in> set (users r). socketId (heap s ! a) = x))"

fun join_ok :: "state \<Rightarrow> env \<times> event \<Rightarrow> bool" where
  "join_ok s (e, Receive c FindRandomPartner) = (generateRoomId e \<notin> snd ` set (joined s))"
| "join_ok s (e, ev) = True"

fun rooms_unique :: "state \<Rightarrow> (env \<times> event) list \<Rightarrow> bool" where
  "rooms_unique s [] = True"
| "rooms_unique s (x # xs) = (join_ok s x \<and> rooms_unique (fst (step s x)) xs)"


text \<open>The scenario of the specification: two participants without profile, default
  configuration, \<open>A\<close> registers and searches first.\<close>

definition env0 :: env where
  "env0 = \<lparr>now = 1000, random = ''abc''\<rparr>"

definition no_profile :: userInfo where
  "no_profile = \<lparr>info_university = None, info_gender = None, info_year = None\<rparr>"

definition scenario_registered :: "(env \<times> event) list" where
  "scenario_registered =
     [(env0, Connect ''sA''), (env0, Connect ''sB''),
      (env0, Receive ''sA'' (RegisterUser ''A'' no_profile)),
      (env0, Receive ''sB'' (RegisterUser ''B'' no_profile))]"

definition scenario_waiting :: "(env \<times> event) list" where
  "scenario_waiting = scenario_registered @ [(env0, Receive ''sA'' FindRandomPartner)]"

definition scenario_matched :: "(env \<times> event) list" where
  "scenario_matched = scenario_waiting @ [(env0, Receive ''sB'' FindRandomPartner)]"


section \<open>Frame lemmas\<close>

lemma heap_extends_refl [simp]: "heap_extends h h"
  by (simp add: heap_extends_def)

lemma heap_extends_trans: "heap_extends h1 h2 \<Longrightarrow> heap_extends h2 h3 \<Longrightarrow> heap_extends h1 h3"
  by (auto simp: heap_extends_def)

lemma heap_extends_append [simp]: "heap_extends h (h @ [u])"
  by (simp add: heap_extends_def nth_append)

lemma heap_extends_update:
  assumes "frozen u = frozen (h ! a)"
  shows "heap_extends h (h[a := u])"
  unfolding heap_extends_def
proof (intro conjI allI impI)
  fix b assume "b < length h"
  then show "frozen (h[a := u] ! b) = frozen (h ! b)"
    using assms by (cases "b = a") simp_all
qed simp

lemma frozen_upd [simp]:
  "frozen (u\<lparr>isWaiting := b\<rparr>) = frozen u"
  "frozen (u\<lparr>currentRoom := r\<rparr>) = frozen u"
  "frozen (u\<lparr>partnerId := q\<rparr>) = frozen u"
  by (simp_all add: frozen_def)

lemma heap_extends_clear_partner: "heap_extends h (clear_partner s c h)"
  by (auto simp: clear_partner_def intro!: heap_extends_update split: option.splits)

lemma he_register: "heap_extends (heap s) (heap (fst (registerUser s c uid info e)))"
  by (simp add: registerUser_def Let_def)

lemma he_timeout: "heap_extends (heap s) (heap (fst (searchTimeout s c a)))"
  by (simp add: searchTimeout_def heap_extends_update)

lemma he_match: "heap_extends (heap s) (heap (fst (matchUsers s c a p e)))"
  by (auto simp: matchUsers_def Let_def socket_join_def intro!: heap_extends_trans[OF heap_extends_update heap_extends_update])

lemma he_find: "heap_extends (heap s) (heap (fst (findRandomPartner s c e)))"
  by (auto simp: findRandomPartner_def he_match heap_extends_update split: option.splits)



lemma he_reject: "heap_extends (heap s) (heap (fst (rejectCall s c)))"
  by (auto simp: rejectCall_def Let_def split: option.splits
      intro!: heap_extends_trans[OF heap_extends_update heap_extends_clear_partner])

lemma he_end: "heap_extends (heap s) (heap (fst (endCall s c)))"
  by (auto simp: endCall_def Let_def heap_extends_update split: option.splits
      intro!: heap_extends_trans[OF heap_extends_update heap_extends_clear_partner])

lemma he_disconnect: "heap_extends (heap s) (heap (fst (disconnect s c)))"
  by (auto simp: disconnect_def Let_def heap_extends_clear_partner split: option.splits prod.splits if_splits)

lemma heap_cleanup_users: "heap (fold (cleanup_user t) es s) = heap s"
  by (induction es arbitrary: s) (auto simp: cleanup_user_def)

lemma heap_cleanup_rooms: "heap (fold cleanup_room es s) = heap s"
  by (induction es arbitrary: s) (auto simp: cleanup_room_def)




lemma frozen_eqD:
  "frozen u = frozen v \<Longrightarrow> socketId u = socketId v \<and> userId u = userId v \<and> joinedAt u = joinedAt v"
  by (simp add: frozen_def)

lemma heap_extends_nth:
  "heap_extends h h' \<Longrightarrow> a < length h \<Longrightarrow>
     a < length h' \<and> socketId (h' ! a) = socketId (h ! a) \<and> userId (h' ! a) = userId (h ! a)
       \<and> joinedAt (h' ! a) = joinedAt (h ! a)"
  by (auto simp: heap_extends_def dest: frozen_eqD)

lemma inv_reg_frame:
  assumes "inv_reg s" "heap_extends (heap s) (heap s')"
    and "\<And>c a. map_of (connectedUsers s') c = Some a \<Longrightarrow> map_of (connectedUsers s) c = Some a"
    and "set (sockets s) \<subseteq> set (sockets s')"
  shows "inv_reg s'"
  unfolding inv_reg_def
proof (intro allI impI)
  fix c a assume "map_of (connectedUsers s') c = Some a"
  then have m: "map_of (connectedUsers s) c = Some a" by (rule assms(3))
  with assms(1) have a: "a < length (heap s)" "socketId (heap s ! a) = c" "c \<in> set (sockets s)"
    by (auto simp: inv_reg_def)
  from heap_extends_nth[OF assms(2) a(1)] a assms(4)
  show "a < length (heap s') \<and> socketId (heap s' ! a) = c \<and> c \<in> set (sockets s')" by auto
qed

lemma reg_timeout [simp]: "connectedUsers (fst (searchTimeout s c a)) = connectedUsers s"
  by (simp add: searchTimeout_def)
lemma reg_match [simp]: "connectedUsers (fst (matchUsers s c a p e)) = connectedUsers s"
  by (simp add: matchUsers_def Let_def socket_join_def)
lemma reg_find [simp]: "connectedUsers (fst (findRandomPartner s c e)) = connectedUsers s"
  by (simp add: findRandomPartner_def split: option.splits)
lemma reg_accept [simp]: "fst (acceptCall s c) = s"
  by (simp add: acceptCall_def split: option.splits)
lemma reg_relay [simp]: "fst (relay s c mk) = s"
  by (simp add: relay_def split: option.splits)
lemma reg_reject [simp]: "connectedUsers (fst (rejectCall s c)) = connectedUsers s"
  by (simp add: rejectCall_def Let_def split: option.splits)
lemma reg_end [simp]: "connectedUsers (fst (endCall s c)) = connectedUsers s"
  by (simp add: endCall_def Let_def split: option.splits)
lemma reg_disconnect: "connectedUsers (fst (disconnect s c)) = AList.delete c (connectedUsers s)"
  by (auto simp: disconnect_def Let_def split: option.splits prod.splits if_splits
      intro: AList.delete_id[symmetric] simp: map_of_eq_None_iff)
lemma reg_cleanup_rooms [simp]: "connectedUsers (fold cleanup_room es s) = connectedUsers s"
  by (induction es arbitrary: s) (auto simp: cleanup_room_def)
lemma reg_cleanup_users:
  "map_of (connectedUsers (fold (cleanup_user t) es s)) c = Some a \<Longrightarrow> map_of (connectedUsers s) c = Some a"
proof (induction es arbitrary: s)
  case (Cons x es)
  from Cons.IH[OF Cons.prems[simplified]] show ?case
    by (auto simp: cleanup_user_def AList.delete_conv' split: prod.splits if_splits)
qed simp

lemma sockets_timeout [simp]: "sockets (fst (searchTimeout s c a)) = sockets s"
  by (simp add: searchTimeout_def)
lemma sockets_match [simp]: "sockets (fst (matchUsers s c a p e)) = sockets s"
  by (simp add: matchUsers_def Let_def socket_join_def)
lemma sockets_find [simp]: "sockets (fst (findRandomPartner s c e)) = sockets s"
  by (simp add: findRandomPartner_def split: option.splits)
lemma sockets_reject [simp]: "sockets (fst (rejectCall s c)) = sockets s"
  by (simp add: rejectCall_def Let_def split: option.splits)
lemma sockets_end [simp]: "sockets (fst (endCall s c)) = sockets s"
  by (simp add: endCall_def Let_def split: option.splits)
lemma sockets_disconnect [simp]: "sockets (fst (disconnect s c)) = sockets s"
  by (auto simp: disconnect_def Let_def split: option.splits prod.splits if_splits)
lemma sockets_cleanup_rooms [simp]: "sockets (fold cleanup_room es s) = sockets s"
  by (induction es arbitrary: s) (auto simp: cleanup_room_def)
lemma sockets_cleanup_users [simp]: "sockets (fold (cleanup_user t) es s) = sockets s"
  by (induction es arbitrary: s) (auto simp: cleanup_user_def)

lemma inv_reg_register:
  assumes "inv_reg s" "c \<in> set (sockets s)"
  shows "inv_reg (fst (registerUser s c uid info e))"
  unfolding inv_reg_def
proof (intro allI impI)
  fix c' a
  assume m: "map_of (connectedUsers (fst (registerUser s c uid info e))) c' = Some a"
  show "a < length (heap (fst (registerUser s c uid info e))) \<and>
        socketId (heap (fst (registerUser s c uid info e)) ! a) = c' \<and>
        c' \<in> set (sockets (fst (registerUser s c uid info e)))"
  proof (cases "c' = c")
    case True
    with m assms(2) show ?thesis
      by (auto simp: registerUser_def Let_def AList.update_conv' User_def)
  next
    case False
    with m have "map_of (connectedUsers s) c' = Some a"
      by (simp add: registerUser_def Let_def AList.update_conv')
    with assms(1) have "a < length (heap s)" "socketId (heap s ! a) = c'" "c' \<in> set (sockets s)"
      by (auto simp: inv_reg_def)
    then show ?thesis
      by (simp add: registerUser_def Let_def nth_append)
  qed
qed

lemma inv_reg_handle:
  assumes "inv_reg s" "c \<in> set (sockets s)"
  shows "inv_reg (fst (handle s c e m))"
proof (cases m)
  case (RegisterUser uid info)
  then show ?thesis using assms by (simp add: inv_reg_register)
next
  case FindRandomPartner
  then show ?thesis using assms(1) by (auto intro!: inv_reg_frame[OF _ he_find])
next
  case RejectCall
  then show ?thesis using assms(1) by (auto intro!: inv_reg_frame[OF _ he_reject])
next
  case EndCall
  then show ?thesis using assms(1) by (auto intro!: inv_reg_frame[OF _ he_end])
qed (use assms(1) in \<open>simp_all add: offer_def answer_def iceCandidate_def ping_def\<close>)

lemma inv_reg_step:
  assumes "inv_reg s"
  shows "inv_reg (fst (step s x))"
proof (cases x)
  case (Pair e ev)
  show ?thesis
  proof (cases ev)
    case (Connect c)
    with Pair assms show ?thesis by (auto simp: inv_reg_def)
  next
    case (Receive c m)
    with Pair assms show ?thesis by (simp add: inv_reg_handle)
  next
    case (Disconnect c)
    let ?s1 = "s\<lparr>sockets := removeAll c (sockets s), joined := filter (\<lambda>(c', n). c' \<noteq> c) (joined s)\<rparr>"
    have he: "heap_extends (heap s) (heap (fst (disconnect ?s1 c)))"
      using he_disconnect[of ?s1 c] by simp
    have "inv_reg (fst (disconnect ?s1 c))"
      unfolding inv_reg_def
    proof (intro allI impI)
      fix c' a assume "map_of (connectedUsers (fst (disconnect ?s1 c))) c' = Some a"
      then have m: "c' \<noteq> c" "map_of (connectedUsers s) c' = Some a"
        by (auto simp: reg_disconnect AList.delete_conv' split: if_splits)
      with assms have a: "a < length (heap s)" "socketId (heap s ! a) = c'" "c' \<in> set (sockets s)"
        by (auto simp: inv_reg_def)
      from heap_extends_nth[OF he a(1)] a m(1)
      show "a < length (heap (fst (disconnect ?s1 c))) \<and> socketId (heap (fst (disconnect ?s1 c)) ! a) = c'
              \<and> c' \<in> set (sockets (fst (disconnect ?s1 c)))" by auto
    qed
    with Pair Disconnect assms show ?thesis by simp
  next
    case (TimerFires c a)
    let ?s1 = "s\<lparr>timers := remove1 (c, a) (timers s)\<rparr>"
    have "inv_reg ?s1" using assms by (simp add: inv_reg_def)
    then have "inv_reg (fst (searchTimeout ?s1 c a))"
      by (auto intro!: inv_reg_frame[OF _ he_timeout])
    with Pair TimerFires assms show ?thesis by simp
  next
    case CleanupTick
    have "inv_reg (cleanupEmptyRooms (cleanupInactiveUsers (now e) s))"
      using assms
      by (rule inv_reg_frame)
         (auto simp: cleanupEmptyRooms_def cleanupInactiveUsers_def heap_cleanup_users heap_cleanup_rooms
               dest: reg_cleanup_users)
    with Pair CleanupTick show ?thesis by simp
  qed
qed

lemma heap_clears_refl [simp]: "heap_clears h h"
  by (simp add: heap_clears_def)

lemma heap_clears_trans: "heap_clears h1 h2 \<Longrightarrow> heap_clears h2 h3 \<Longrightarrow> heap_clears h1 h3"
  unfolding heap_clears_def by (intro conjI allI impI; metis)

lemma heap_clears_update:
  assumes "frozen u = frozen (h ! a)" "currentRoom u = None \<or> currentRoom u = currentRoom (h ! a)"
  shows "heap_clears h (h[a := u])"
  unfolding heap_clears_def
proof (intro conjI allI impI)
  fix b assume "b < length h"
  then show "frozen (h[a := u] ! b) = frozen (h ! b)"
    using assms by (cases "b = a") simp_all
  show "currentRoom (h[a := u] ! b) = None \<or> currentRoom (h[a := u] ! b) = currentRoom (h ! b)"
    using assms \<open>b < length h\<close> by (cases "b = a") auto
qed simp

lemma heap_clears_extends: "heap_clears h h' \<Longrightarrow> heap_extends h h'"
  by (simp add: heap_clears_def heap_extends_def)

lemma heap_clears_clear_partner: "heap_clears h (clear_partner s c h)"
  by (auto simp: clear_partner_def intro!: heap_clears_update split: option.splits)

lemma hc_timeout: "heap_clears (heap s) (heap (fst (searchTimeout s c a)))"
  by (simp add: searchTimeout_def heap_clears_update)

lemma hc_reject: "heap_clears (heap s) (heap (fst (rejectCall s c)))"
  by (auto simp: rejectCall_def Let_def split: option.splits
      intro!: heap_clears_trans[OF heap_clears_update heap_clears_clear_partner])

lemma hc_end: "heap_clears (heap s) (heap (fst (endCall s c)))"
  by (auto simp: endCall_def Let_def heap_clears_update split: option.splits
      intro!: heap_clears_trans[OF heap_clears_update heap_clears_clear_partner])

lemma hc_disconnect: "heap_clears (heap s) (heap (fst (disconnect s c)))"
  by (auto simp: disconnect_def Let_def heap_clears_clear_partner split: option.splits prod.splits if_splits)

subsection \<open>The session store only shrinks outside a match\<close>

lemma map_of_delete_SomeD: "map_of (AList.delete k al) k' = Some v \<Longrightarrow> map_of al k' = Some v"
  by (simp add: AList.delete_conv' split: if_splits)

lemma rooms_timeout [simp]: "activeRooms (fst (searchTimeout s c a)) = activeRooms s"
  by (simp add: searchTimeout_def)
lemma rooms_reject: "map_of (activeRooms (fst (rejectCall s c))) k = Some r \<Longrightarrow> map_of (activeRooms s) k = Some r"
  by (auto simp: rejectCall_def Let_def split: option.splits if_splits dest: map_of_delete_SomeD)
lemma rooms_end: "map_of (activeRooms (fst (endCall s c))) k = Some r \<Longrightarrow> map_of (activeRooms s) k = Some r"
  by (auto simp: endCall_def Let_def split: option.splits if_splits dest: map_of_delete_SomeD)
lemma rooms_disconnect: "map_of (activeRooms (fst (disconnect s c))) k = Some r \<Longrightarrow> map_of (activeRooms s) k = Some r"
  by (auto simp: disconnect_def Let_def split: option.splits if_splits prod.splits dest: map_of_delete_SomeD)
lemma rooms_cleanup_users [simp]: "activeRooms (fold (cleanup_user t) es s) = activeRooms s"
  by (induction es arbitrary: s) (auto simp: cleanup_user_def)
lemma rooms_cleanup_rooms:
  "map_of (activeRooms (fold cleanup_room es s)) k = Some r \<Longrightarrow> map_of (activeRooms s) k = Some r"
proof (induction es arbitrary: s)
  case (Cons x es)
  from Cons.IH[OF Cons.prems[simplified]] show ?case
    by (auto simp: cleanup_room_def AList.delete_conv' split: prod.splits if_splits)
qed simp

subsection \<open>socket.io rooms are joined only in a match\<close>
lemma joined_timeout [simp]: "joined (fst (searchTimeout s c a)) = joined s"
  by (simp add: searchTimeout_def)
lemma joined_reject [simp]: "joined (fst (rejectCall s c)) = joined s"
  by (simp add: rejectCall_def Let_def split: option.splits)
lemma joined_end [simp]: "joined (fst (endCall s c)) = joined s"
  by (simp add: endCall_def Let_def split: option.splits)
lemma joined_disconnect [simp]: "joined (fst (disconnect s c)) = joined s"
  by (auto simp: disconnect_def Let_def split: option.splits prod.splits if_splits)
lemma joined_cleanup_rooms [simp]: "joined (fold cleanup_room es s) = joined s"
  by (induction es arbitrary: s) (auto simp: cleanup_room_def)
lemma joined_cleanup_users [simp]: "joined (fold (cleanup_user t) es s) = joined s"
  by (induction es arbitrary: s) (auto simp: cleanup_user_def)

subsection \<open>Frame rules of the invariants\<close>

lemma inv_rooms_frame:
  assumes "inv_rooms s" "heap_extends (heap s) (heap s')"
    and "\<And>k r. map_of (activeRooms s') k = Some r \<Longrightarrow> map_of (activeRooms s) k = Some r"
  shows "inv_rooms s'"
  unfolding inv_rooms_def
proof (intro allI impI)
  fix k r assume "map_of (activeRooms s') k = Some r"
  then have "map_of (activeRooms s) k = Some r" by (rule assms(3))
  with assms(1) obtain x y where r: "roomId r = k" "users r = [x, y]" "x < length (heap s)" "y < length (heap s)"
     "userId (heap s ! x) \<noteq> userId (heap s ! y)" "socketId (heap s ! x) \<noteq> socketId (heap s ! y)"
    unfolding inv_rooms_def by blast
  from heap_extends_nth[OF assms(2) r(3)] heap_extends_nth[OF assms(2) r(4)] r
  show "roomId r = k \<and> (\<exists>x y. users r = [x, y] \<and> x < length (heap s') \<and> y < length (heap s') \<and>
               userId (heap s' ! x) \<noteq> userId (heap s' ! y) \<and>
               socketId (heap s' ! x) \<noteq> socketId (heap s' ! y))"
    by auto
qed

lemma inv_session_frame:
  assumes "inv_session s" "inv_reg s" "heap_clears (heap s) (heap s')"
    and "\<And>c a. map_of (connectedUsers s') c = Some a \<Longrightarrow> map_of (connectedUsers s) c = Some a"
    and "\<And>k r. map_of (activeRooms s') k = Some r \<Longrightarrow> map_of (activeRooms s) k = Some r"
    and "\<And>c a k. map_of (connectedUsers s') c = Some a \<Longrightarrow> (c, k) \<in> set (joined s) \<Longrightarrow> (c, k) \<in> set (joined s')"
  shows "inv_session s'"
  unfolding inv_session_def
proof (intro allI impI)
  fix c a k r
  assume m': "map_of (connectedUsers s') c = Some a" and cr: "currentRoom (heap s' ! a) = Some k"
    and rm: "map_of (activeRooms s') k = Some r"
  from m' have m: "map_of (connectedUsers s) c = Some a" by (rule assms(4))
  with assms(2) have "a < length (heap s)" by (simp add: inv_reg_def)
  with assms(3) cr have "currentRoom (heap s ! a) = Some k"
    unfolding heap_clears_def by (metis option.distinct(1))
  with assms(1) m assms(5)[OF rm] have "a \<in> set (users r)" "(c, k) \<in> set (joined s)"
    unfolding inv_session_def by blast+
  with assms(6)[OF m'] show "a \<in> set (users r) \<and> (c, k) \<in> set (joined s')" by simp
qed

lemma inv_names_frame:
  assumes "inv_names s" "map frozen (heap s') = map frozen (heap s)"
     "set (sockets s') \<subseteq> set (sockets s)" "set (joined s') \<subseteq> set (joined s)"
  shows "inv_names s'"
proof -
  have "map socketId (heap s') = map (fst \<circ> frozen) (heap s')" by (simp add: frozen_def comp_def)
  also have "\<dots> = map (fst \<circ> frozen) (heap s)" using assms(2) by (metis map_map)
  also have "\<dots> = map socketId (heap s)" by (simp add: frozen_def comp_def)
  finally have eq: "socketId ` set (heap s') = socketId ` set (heap s)" by (metis set_map)
  have "\<not> is_room_name (socketId u)" if "u \<in> set (heap s')" for u
  proof -
    from that eq have "socketId u \<in> socketId ` set (heap s)" by blast
    with assms(1) show ?thesis by (auto simp: inv_names_def)
  qed
  with assms(1,3,4) show ?thesis unfolding inv_names_def by blast
qed

lemma heap_clears_map_frozen: "heap_clears h h' \<Longrightarrow> map frozen h' = map frozen h"
  by (auto simp: heap_clears_def intro: nth_equalityI)

section \<open>Invariants of the reachable states\<close>

lemma is_room_name_generate [simp]: "is_room_name (generateRoomId e)"
  by (simp add: is_room_name_def generateRoomId_def)

lemma findPartner_loop_Some:
  "findPartner_loop s u ws = Some p \<Longrightarrow>
     \<exists>w \<in> set ws. map_of (connectedUsers s) w = Some p \<and>
        areUsersCompatible (matchingPreferences s) u (heap s ! p)"
  by (induction ws) (auto split: option.splits if_splits)

lemma findPartner_Some:
  "findPartner s u = Some p \<Longrightarrow>
     \<exists>w \<in> set (waitingUsers s). map_of (connectedUsers s) w = Some p \<and>
        areUsersCompatible (matchingPreferences s) u (heap s ! p)"
  unfolding findPartner_def by (rule findPartner_loop_Some)

lemma compatible_userId: "areUsersCompatible pr u v \<Longrightarrow> userId u \<noteq> userId v"
  by (auto simp: areUsersCompatible_def split: if_splits)

subsection \<open>The effect of a match\<close>

lemma mu_rooms:
  "activeRooms (fst (matchUsers s c a p e)) =
     AList.update (generateRoomId e) (Room (generateRoomId e) a p (now e)) (activeRooms s)"
  by (simp add: matchUsers_def Let_def socket_join_def)

lemma mu_heap:
  "heap (fst (matchUsers s c a p e)) =
     (heap s)[a := (heap s ! a)\<lparr>currentRoom := Some (generateRoomId e),
                                 partnerId := Some (userId (heap s ! p)), isWaiting := False\<rparr>,
              p := (((heap s)[a := (heap s ! a)\<lparr>currentRoom := Some (generateRoomId e),
                                 partnerId := Some (userId (heap s ! p)), isWaiting := False\<rparr>]) ! p)
                     \<lparr>currentRoom := Some (generateRoomId e),
                      partnerId := Some (userId (((heap s)[a := (heap s ! a)\<lparr>currentRoom := Some (generateRoomId e),
                                 partnerId := Some (userId (heap s ! p)), isWaiting := False\<rparr>]) ! a)),
                      isWaiting := False\<rparr>]"
  by (simp add: matchUsers_def Let_def socket_join_def)

lemma map_frozen_update:
  assumes "frozen u = frozen (h ! a)"
  shows "map frozen (h[a := u]) = map frozen h"
proof (rule nth_equalityI)
  fix i assume "i < length (map frozen (h[a := u]))"
  then show "map frozen (h[a := u]) ! i = map frozen h ! i"
    using assms by (cases "i = a") simp_all
qed simp

lemma mu_frozen: "map frozen (heap (fst (matchUsers s c a p e))) = map frozen (heap s)"
  unfolding mu_heap by (simp add: map_frozen_update)

lemma mu_nth:
  assumes "b < length (heap s)"
  shows "b < length (heap (fst (matchUsers s c a p e)))"
    "socketId (heap (fst (matchUsers s c a p e)) ! b) = socketId (heap s ! b)"
    "userId (heap (fst (matchUsers s c a p e)) ! b) = userId (heap s ! b)"
  using heap_extends_nth[OF he_match assms] by simp_all

lemma mu_he: "heap_extends (heap s) (heap (fst (matchUsers s c a p e)))"
  by (rule he_match)

lemma mu_currentRoom:
  assumes "b < length (heap s)"
  shows "currentRoom (heap (fst (matchUsers s c a p e)) ! b) =
           (if b = a \<or> b = p then Some (generateRoomId e) else currentRoom (heap s ! b))"
  unfolding mu_heap using assms by (auto simp: nth_list_update)

lemma mu_socketId:
  assumes "b < length (heap s)"
  shows "socketId (heap (fst (matchUsers s c a p e)) ! b) = socketId (heap s ! b)"
  using heap_extends_nth[OF mu_he assms] by simp

lemma mu_joined:
  assumes "p < length (heap s)"
  shows "set (joined (fst (matchUsers s c a p e))) =
           set (joined s) \<union> {(c, generateRoomId e)} \<union>
           (if socketId (heap s ! p) \<in> set (sockets s) then {(socketId (heap s ! p), generateRoomId e)} else {})"
proof -
  have sp: "socketId (heap (fst (matchUsers s c a p e)) ! p) = socketId (heap s ! p)"
    by (rule mu_socketId[OF assms])
  show ?thesis
    using sp unfolding mu_heap
    by (simp add: matchUsers_def Let_def socket_join_def set_add_def) blast
qed

lemma inv_match:
  assumes i: "inv s" and m: "map_of (connectedUsers s) c = Some a"
    and f: "findPartner s (heap s ! a) = Some p"
    and fresh: "\<forall>u \<in> set (heap s). currentRoom u \<noteq> Some (generateRoomId e)"
  shows "inv (fst (matchUsers s c a p e))"
proof -
  let ?s' = "fst (matchUsers s c a p e)"
  let ?rid = "generateRoomId e"
  from i have ir: "inv_reg s" and inn: "inv_names s" and iro: "inv_rooms s" and ise: "inv_session s"
    by (simp_all add: inv_def)
  from findPartner_Some[OF f] obtain w where w: "w \<in> set (waitingUsers s)"
     "map_of (connectedUsers s) w = Some p" "areUsersCompatible (matchingPreferences s) (heap s ! a) (heap s ! p)"
    by blast
  from ir m have a: "a < length (heap s)" "socketId (heap s ! a) = c" "c \<in> set (sockets s)"
    by (auto simp: inv_reg_def)
  from ir w(2) have p: "p < length (heap s)" "socketId (heap s ! p) = w" "w \<in> set (sockets s)"
    by (auto simp: inv_reg_def)
  from compatible_userId[OF w(3)] have uid: "userId (heap s ! a) \<noteq> userId (heap s ! p)" .
  then have ap: "a \<noteq> p" by auto
  with m w(2) have cw: "c \<noteq> w" by auto
  have jn: "set (joined ?s') = set (joined s) \<union> {(c, ?rid), (w, ?rid)}"
    using mu_joined[OF p(1), of c a e] p by auto
  have 1: "inv_reg ?s'"
    using ir mu_he by (rule inv_reg_frame) simp_all
  have 2: "inv_names ?s'"
  proof -
    have "map socketId (heap ?s') = map (fst \<circ> frozen) (heap ?s')" by (simp add: frozen_def comp_def)
    also have "\<dots> = map (fst \<circ> frozen) (heap s)" using mu_frozen[of s c a p e] by (metis map_map)
    also have "\<dots> = map socketId (heap s)" by (simp add: frozen_def comp_def)
    finally have eq: "socketId ` set (heap ?s') = socketId ` set (heap s)" by (metis set_map)
    have "\<not> is_room_name (socketId u)" if "u \<in> set (heap ?s')" for u
    proof -
      from that eq have "socketId u \<in> socketId ` set (heap s)" by blast
      with inn show ?thesis by (auto simp: inv_names_def)
    qed
    moreover have "\<forall>c\<in>set (sockets ?s'). \<not> is_room_name c"
      using inn by (simp add: inv_names_def)
    moreover have "\<forall>x\<in>set (joined ?s'). is_room_name (snd x)"
      using inn unfolding jn by (auto simp: inv_names_def)
    ultimately show ?thesis unfolding inv_names_def by blast
  qed
  have 3: "inv_rooms ?s'"
    unfolding inv_rooms_def
  proof (intro allI impI)
    fix k r assume rm: "map_of (activeRooms ?s') k = Some r"
    show "roomId r = k \<and> (\<exists>x y. users r = [x, y] \<and> x < length (heap ?s') \<and> y < length (heap ?s') \<and>
               userId (heap ?s' ! x) \<noteq> userId (heap ?s' ! y) \<and>
               socketId (heap ?s' ! x) \<noteq> socketId (heap ?s' ! y))"
    proof (cases "k = ?rid")
      case True
      with rm have r: "r = Room ?rid a p (now e)" by (simp add: mu_rooms AList.update_conv')
      from a p uid cw True
      show ?thesis unfolding r by (simp add: Room_def mu_nth)
    next
      case False
      with rm have "map_of (activeRooms s) k = Some r" by (simp add: mu_rooms AList.update_conv')
      with iro obtain x y where r: "roomId r = k" "users r = [x, y]" "x < length (heap s)" "y < length (heap s)"
         "userId (heap s ! x) \<noteq> userId (heap s ! y)" "socketId (heap s ! x) \<noteq> socketId (heap s ! y)"
        unfolding inv_rooms_def by blast
      from r show ?thesis by (simp add: mu_nth)
    qed
  qed
  have 4: "inv_session ?s'"
    unfolding inv_session_def
  proof (intro allI impI)
    fix c' a' k r
    assume m': "map_of (connectedUsers ?s') c' = Some a'" and cr: "currentRoom (heap ?s' ! a') = Some k"
      and rm: "map_of (activeRooms ?s') k = Some r"
    from m' have m0: "map_of (connectedUsers s) c' = Some a'" by simp
    with ir have a': "a' < length (heap s)" "socketId (heap s ! a') = c'" by (auto simp: inv_reg_def)
    show "a' \<in> set (users r) \<and> (c', k) \<in> set (joined ?s')"
    proof (cases "a' = a \<or> a' = p")
      case True
      with cr a' have k: "k = ?rid" by (simp add: mu_currentRoom)
      with rm have r: "r = Room ?rid a p (now e)" by (simp add: mu_rooms AList.update_conv')
      from True a' a p have "c' = c \<or> c' = w" by auto
      with True show ?thesis unfolding r jn k by (auto simp: Room_def)
    next
      case False
      with cr a' have cr0: "currentRoom (heap s ! a') = Some k" by (simp add: mu_currentRoom)
      from a'(1) have "heap s ! a' \<in> set (heap s)" by simp
      with fresh cr0 have "k \<noteq> ?rid" by metis
      with rm have "map_of (activeRooms s) k = Some r" by (simp add: mu_rooms AList.update_conv')
      with ise m0 cr0 have "a' \<in> set (users r)" "(c', k) \<in> set (joined s)"
        unfolding inv_session_def by blast+
      then show ?thesis unfolding jn by simp
    qed
  qed
  from 1 2 3 4 show ?thesis by (simp add: inv_def)
qed

lemma invD: "inv s \<Longrightarrow> inv_reg s" "inv s \<Longrightarrow> inv_names s" "inv s \<Longrightarrow> inv_rooms s" "inv s \<Longrightarrow> inv_session s"
  by (simp_all add: inv_def)

lemma inv_frame:
  assumes "inv s" "heap_clears (heap s) (heap s')"
    and "\<And>c a. map_of (connectedUsers s') c = Some a \<Longrightarrow> map_of (connectedUsers s) c = Some a"
    and "\<And>k r. map_of (activeRooms s') k = Some r \<Longrightarrow> map_of (activeRooms s) k = Some r"
    and "sockets s' = sockets s" "joined s' = joined s"
  shows "inv s'"
proof -
  have "inv_reg s'"
    using invD(1)[OF assms(1)] heap_clears_extends[OF assms(2)] assms(3) by (rule inv_reg_frame) (simp_all add: assms(5))
  moreover have "inv_names s'"
    using invD(2)[OF assms(1)] heap_clears_map_frozen[OF assms(2)] by (rule inv_names_frame) (simp_all add: assms(5,6))
  moreover have "inv_rooms s'"
    using invD(3)[OF assms(1)] heap_clears_extends[OF assms(2)] assms(4) by (rule inv_rooms_frame)
  moreover have "inv_session s'"
    using invD(4)[OF assms(1)] invD(1)[OF assms(1)] assms(2,3,4) by (rule inv_session_frame) (simp_all add: assms(6))
  ultimately show ?thesis by (simp add: inv_def)
qed

lemma inv_reject:
  assumes "inv s"
  shows "inv (fst (rejectCall s c))"
  using assms hc_reject
proof (rule inv_frame)
  fix k r assume "map_of (activeRooms (fst (rejectCall s c))) k = Some r"
  then show "map_of (activeRooms s) k = Some r" by (rule rooms_reject)
qed simp_all

lemma inv_end:
  assumes "inv s"
  shows "inv (fst (endCall s c))"
  using assms hc_end
proof (rule inv_frame)
  fix k r assume "map_of (activeRooms (fst (endCall s c))) k = Some r"
  then show "map_of (activeRooms s) k = Some r" by (rule rooms_end)
qed simp_all

lemma inv_timeout: "inv s \<Longrightarrow> inv (fst (searchTimeout s c a))"
  by (erule inv_frame) (simp_all add: hc_timeout)

lemma inv_cleanup:
  assumes "inv s"
  shows "inv (cleanupEmptyRooms (cleanupInactiveUsers t s))"
  using assms
proof (rule inv_frame)
  fix c a assume "map_of (connectedUsers (cleanupEmptyRooms (cleanupInactiveUsers t s))) c = Some a"
  then show "map_of (connectedUsers s) c = Some a"
    unfolding cleanupEmptyRooms_def cleanupInactiveUsers_def reg_cleanup_rooms by (rule reg_cleanup_users)
next
  fix k r assume "map_of (activeRooms (cleanupEmptyRooms (cleanupInactiveUsers t s))) k = Some r"
  then have "map_of (activeRooms (cleanupInactiveUsers t s)) k = Some r"
    unfolding cleanupEmptyRooms_def by (rule rooms_cleanup_rooms)
  then show "map_of (activeRooms s) k = Some r"
    by (simp add: cleanupInactiveUsers_def)
qed (simp_all add: cleanupEmptyRooms_def cleanupInactiveUsers_def heap_cleanup_users heap_cleanup_rooms)

lemma inv_find:
  assumes "inv s" "\<forall>u \<in> set (heap s). currentRoom u \<noteq> Some (generateRoomId e)"
  shows "inv (fst (findRandomPartner s c e))"
proof (cases "map_of (connectedUsers s) c")
  case None
  with assms(1) show ?thesis by (simp add: findRandomPartner_def)
next
  case (Some a)
  show ?thesis
  proof (cases "isWaiting (heap s ! a)")
    case True
    with Some assms(1) show ?thesis by (simp add: findRandomPartner_def)
  next
    case False
    show ?thesis
    proof (cases "findPartner s (heap s ! a)")
      case (Some p)
      from inv_match[OF assms(1) \<open>map_of (connectedUsers s) c = Some a\<close> Some assms(2)]
      show ?thesis using Some False \<open>map_of (connectedUsers s) c = Some a\<close>
        by (simp add: findRandomPartner_def)
    next
      case None
      let ?s' = "s\<lparr>heap := (heap s)[a := (heap s ! a)\<lparr>isWaiting := True\<rparr>],
                       waitingUsers := set_add c (waitingUsers s),
                       timers := timers s @ [(c, a)]\<rparr>"
      have "inv ?s'"
        using assms(1) by (rule inv_frame) (simp_all add: heap_clears_update)
      with None False \<open>map_of (connectedUsers s) c = Some a\<close> show ?thesis
        by (simp add: findRandomPartner_def)
    qed
  qed
qed

lemma inv_register:
  assumes "inv s" "c \<in> set (sockets s)"
  shows "inv (fst (registerUser s c uid info e))"
proof -
  let ?s' = "fst (registerUser s c uid info e)"
  have h': "heap ?s' = heap s @ [User c uid info (now e)]"
    and r': "connectedUsers ?s' = AList.update c (length (heap s)) (connectedUsers s)"
    and o': "activeRooms ?s' = activeRooms s" "sockets ?s' = sockets s" "joined ?s' = joined s"
    by (simp_all add: registerUser_def Let_def)
  have 1: "inv_reg ?s'" using invD(1)[OF assms(1)] assms(2) by (rule inv_reg_register)
  have 2: "inv_names ?s'"
    using invD(2)[OF assms(1)] assms(2) unfolding inv_names_def h' o' by (auto simp: User_def)
  have 3: "inv_rooms ?s'"
    using invD(3)[OF assms(1)] he_register by (rule inv_rooms_frame) (simp add: o')
  have 4: "inv_session ?s'"
    unfolding inv_session_def
  proof (intro allI impI)
    fix c' a k r
    assume m': "map_of (connectedUsers ?s') c' = Some a" and cr: "currentRoom (heap ?s' ! a) = Some k"
      and rm: "map_of (activeRooms ?s') k = Some r"
    have "c' \<noteq> c"
    proof
      assume "c' = c"
      with m' have "a = length (heap s)" by (simp add: r' AList.update_conv')
      with cr show False by (simp add: h' User_def)
    qed
    with m' have m: "map_of (connectedUsers s) c' = Some a" by (simp add: r' AList.update_conv')
    with invD(1)[OF assms(1)] have "a < length (heap s)" by (simp add: inv_reg_def)
    with cr have "currentRoom (heap s ! a) = Some k" by (simp add: h' nth_append)
    with invD(4)[OF assms(1)] m rm show "a \<in> set (users r) \<and> (c', k) \<in> set (joined ?s')"
      unfolding inv_session_def o' by blast
  qed
  from 1 2 3 4 show ?thesis by (simp add: inv_def)
qed

lemma inv_handle:
  assumes "inv s" "c \<in> set (sockets s)" "env_ok s (e, Receive c m)"
  shows "inv (fst (handle s c e m))"
proof (cases m)
  case (RegisterUser uid info)
  with assms show ?thesis by (simp add: inv_register)
next
  case FindRandomPartner
  with assms show ?thesis by (simp add: inv_find)
qed (use assms(1) in \<open>simp_all add: offer_def answer_def iceCandidate_def ping_def inv_reject inv_end\<close>)

lemma inv_connect:
  assumes "inv s" "\<not> is_room_name c"
  shows "inv (s\<lparr>sockets := sockets s @ [c]\<rparr>)"
proof -
  let ?s' = "s\<lparr>sockets := sockets s @ [c]\<rparr>"
  have "inv_reg ?s'" using invD(1)[OF assms(1)] by (auto simp: inv_reg_def)
  moreover have "inv_names ?s'" using invD(2)[OF assms(1)] assms(2) by (auto simp: inv_names_def)
  moreover have "inv_rooms ?s'" using invD(3)[OF assms(1)] by (auto simp: inv_rooms_def)
  moreover have "inv_session ?s'" using invD(4)[OF assms(1)] by (auto simp: inv_session_def)
  ultimately show ?thesis by (simp add: inv_def)
qed

lemma inv_disconnect:
  assumes "inv s"
  shows "inv (fst (disconnect (s\<lparr>sockets := removeAll c (sockets s),
                         joined := filter (\<lambda>(c', n). c' \<noteq> c) (joined s)\<rparr>) c))"
proof -
  let ?s1 = "s\<lparr>sockets := removeAll c (sockets s), joined := filter (\<lambda>(c', n). c' \<noteq> c) (joined s)\<rparr>"
  let ?s' = "fst (disconnect ?s1 c)"
  have hc: "heap_clears (heap s) (heap ?s')" using hc_disconnect[of ?s1 c] by simp
  have reg: "map_of (connectedUsers ?s') c' = Some a \<Longrightarrow> c' \<noteq> c \<and> map_of (connectedUsers s) c' = Some a" for c' a
    by (auto simp: reg_disconnect AList.delete_conv' split: if_splits)
  have rooms: "map_of (activeRooms ?s') k = Some r \<Longrightarrow> map_of (activeRooms s) k = Some r" for k r
    using rooms_disconnect[of ?s1 c k r] by simp
  have 1: "inv_reg ?s'"
    unfolding inv_reg_def
  proof (intro allI impI)
    fix c' a assume "map_of (connectedUsers ?s') c' = Some a"
    from reg[OF this] have m: "c' \<noteq> c" "map_of (connectedUsers s) c' = Some a" by auto
    with invD(1)[OF assms] have a: "a < length (heap s)" "socketId (heap s ! a) = c'" "c' \<in> set (sockets s)"
      by (auto simp: inv_reg_def)
    from heap_extends_nth[OF heap_clears_extends[OF hc] a(1)] a m(1)
    show "a < length (heap ?s') \<and> socketId (heap ?s' ! a) = c' \<and> c' \<in> set (sockets ?s')" by auto
  qed
  have 2: "inv_names ?s'"
    using invD(2)[OF assms] heap_clears_map_frozen[OF hc] by (rule inv_names_frame) auto
  have 3: "inv_rooms ?s'"
    using invD(3)[OF assms] heap_clears_extends[OF hc] rooms by (rule inv_rooms_frame)
  have 4: "inv_session ?s'"
    using invD(4)[OF assms] invD(1)[OF assms] hc
  proof (rule inv_session_frame)
    fix c' a k assume "map_of (connectedUsers ?s') c' = Some a" "(c', k) \<in> set (joined s)"
    with reg[of c' a] show "(c', k) \<in> set (joined ?s')" by simp
  next
    fix c' a assume "map_of (connectedUsers ?s') c' = Some a"
    from reg[OF this] show "map_of (connectedUsers s) c' = Some a" by simp
  next
    fix k r assume "map_of (activeRooms ?s') k = Some r"
    then show "map_of (activeRooms s) k = Some r" by (rule rooms)
  qed
  from 1 2 3 4 show ?thesis by (simp add: inv_def)
qed

lemma inv_step:
  assumes "inv s" "env_ok s x"
  shows "inv (fst (step s x))"
proof (cases x)
  case (Pair e ev)
  show ?thesis
  proof (cases ev)
    case (Connect c)
    with Pair assms show ?thesis by (simp add: inv_connect)
  next
    case (Receive c m)
    with Pair assms show ?thesis by (simp add: inv_handle)
  next
    case (Disconnect c)
    with Pair assms(1) show ?thesis by (simp add: inv_disconnect)
  next
    case (TimerFires c a)
    have "inv (s\<lparr>timers := remove1 (c, a) (timers s)\<rparr>)"
      using assms(1) by (rule inv_frame) simp_all
    with Pair TimerFires assms(1) show ?thesis by (simp add: inv_timeout)
  next
    case CleanupTick
    with Pair assms(1) show ?thesis by (simp add: inv_cleanup)
  qed
qed

lemma inv_init: "inv (init_with p)"
  by (simp add: inv_def inv_reg_def inv_names_def inv_rooms_def inv_session_def init_with_def)

lemma inv_exec: "inv s \<Longrightarrow> run_ok s xs \<Longrightarrow> inv (exec s xs)"
  by (induction xs arbitrary: s) (simp_all add: inv_step)

lemma run_ok_append: "run_ok s (xs @ ys) \<longleftrightarrow> run_ok s xs \<and> run_ok (exec s xs) ys"
  by (induction xs arbitrary: s) auto

lemma exec_append: "exec s (xs @ ys) = exec (exec s xs) ys"
  by (induction xs arbitrary: s) auto

subsection \<open>The registry invariant needs no assumption on the environment\<close>

lemma inv_reg_exec: "inv_reg s \<Longrightarrow> inv_reg (exec s xs)"
  by (induction xs arbitrary: s) (simp_all add: inv_reg_step)

lemma inv_reg_reachable: "inv_reg (exec (init_with p) xs)"
  by (rule inv_reg_exec) (simp add: inv_reg_def init_with_def)

section \<open>Closing a session\<close>

lemma endCall_no_session: "activeSession s c = None \<Longrightarrow> endCall s c = (s, [])"
  by (auto simp: activeSession_def endCall_def split: option.splits if_splits)

lemma activeSession_cleared:
  assumes "map_of (connectedUsers s) c = Some a" "currentRoom (heap s ! a) = None"
  shows "activeSession s c = None"
  using assms by (simp add: activeSession_def truthy_def)



lemma socketId_cleared_nth [simp]:
  "socketId (h[a := (h ! a)\<lparr>currentRoom := x, partnerId := y\<rparr>] ! p) = socketId (h ! p)"
proof (cases "p = a \<and> a < length h")
  case True
  then show ?thesis by simp
next
  case False
  then have "h[a := (h ! a)\<lparr>currentRoom := x, partnerId := y\<rparr>] ! p = h ! p"
    by (cases "p = a") (simp_all add: list_update_beyond)
  then show ?thesis by simp
qed

lemma clear_partner_nth:
  assumes "a < length h" "currentRoom (h ! a) = None"
  shows "currentRoom (clear_partner s d h ! a) = None"
proof (cases "map_of (connectedUsers s) d")
  case None
  with assms show ?thesis by (simp add: clear_partner_def)
next
  case (Some q)
  with assms show ?thesis by (cases "q = a") (simp_all add: clear_partner_def)
qed

lemma clear_partner_target:
  "map_of (connectedUsers s) d = Some q \<Longrightarrow> q < length h \<Longrightarrow> currentRoom (clear_partner s d h ! q) = None"
  by (simp add: clear_partner_def)

lemma length_clear_partner [simp]: "length (clear_partner s d h) = length h"
  by (simp add: clear_partner_def split: option.splits)

lemma activeSessionD:
  assumes "activeSession s c = Some r"
  obtains a where "map_of (connectedUsers s) c = Some a" "truthy (currentRoom (heap s ! a))"
    "map_of (activeRooms s) (the (currentRoom (heap s ! a))) = Some r"
  using assms by (auto simp: activeSession_def split: option.splits if_splits)

lemma endCall_session:
  assumes "activeSession s c = Some r" "map_of (connectedUsers s) c = Some a"
    "getOtherUser (heap s) r (userId (heap s ! a)) = Some p"
  shows "endCall s c =
     (s\<lparr>activeRooms := AList.delete (roomId r) (activeRooms s),
        heap := clear_partner s (socketId (heap s ! p))
                  ((heap s)[a := (heap s ! a)\<lparr>currentRoom := None, partnerId := None\<rparr>])\<rparr>,
      [(ToRoom (socketId (heap s ! p)), UserLeft (userId (heap s ! a)))])"
  using assms by (auto simp: endCall_def activeSession_def Let_def split: option.splits if_splits)

lemma rejectCall_session:
  assumes "activeSession s c = Some r" "map_of (connectedUsers s) c = Some a"
    "getOtherUser (heap s) r (userId (heap s ! a)) = Some p"
  shows "rejectCall s c =
     (s\<lparr>activeRooms := AList.delete (roomId r) (activeRooms s),
        heap := clear_partner s (socketId (heap s ! p))
                  ((heap s)[a := (heap s ! a)\<lparr>currentRoom := None, partnerId := None\<rparr>])\<rparr>,
      [(ToRoom (socketId (heap s ! p)), CallRejected (userId (heap s ! a)))])"
  using assms by (auto simp: rejectCall_def activeSession_def Let_def split: option.splits if_splits)

lemma disconnect_session:
  assumes "activeSession s c = Some r" "map_of (connectedUsers s) c = Some a"
    "getOtherUser (heap s) r (userId (heap s ! a)) = Some p"
  shows "disconnect s c =
     (s\<lparr>waitingUsers := set_delete c (waitingUsers s),
        heap := clear_partner s (socketId (heap s ! p)) (heap s),
        activeRooms := AList.delete (roomId r) (activeRooms s),
        connectedUsers := AList.delete c (connectedUsers s)\<rparr>,
      [(ToRoom (socketId (heap s ! p)), UserLeft (userId (heap s ! a)))])"
  using assms
  by (auto simp: disconnect_def activeSession_def Let_def clear_partner_def split: option.splits if_splits)

lemma endCall_noop_cleared:
  assumes "\<And>q. map_of (connectedUsers s) d = Some q \<Longrightarrow> currentRoom (heap s ! q) = None"
  shows "endCall s d = (s, [])"
proof (rule endCall_no_session)
  show "activeSession s d = None"
    using assms by (auto simp: activeSession_def truthy_def split: option.splits)
qed

lemma endCall_twice:
  assumes "inv_reg s"
  shows "endCall (fst (endCall s c)) c = (fst (endCall s c), [])"
proof (cases "activeSession s c")
  case None
  then show ?thesis by (simp add: endCall_no_session)
next
  case (Some r)
  then obtain a where a: "map_of (connectedUsers s) c = Some a" by (rule activeSessionD)
  with assms have al: "a < length (heap s)" by (simp add: inv_reg_def)
  have "currentRoom (heap (fst (endCall s c)) ! a) = None"
    using Some a al
    by (auto simp: endCall_def activeSession_def Let_def split: option.splits if_splits
             intro!: clear_partner_nth)
  with a show ?thesis by (intro endCall_noop_cleared) simp
qed

lemma close_then_endCall:
  assumes ir: "inv_reg s" and as: "activeSession s c = Some r" and a: "map_of (connectedUsers s) c = Some a"
    and p: "getOtherUser (heap s) r (userId (heap s ! a)) = Some p"
  shows "endCall (fst (endCall s c)) (socketId (heap s ! p)) = (fst (endCall s c), [])"
    "endCall (fst (rejectCall s c)) (socketId (heap s ! p)) = (fst (rejectCall s c), [])"
    "endCall (fst (rejectCall s c)) c = (fst (rejectCall s c), [])"
    "endCall (fst (disconnect s c)) (socketId (heap s ! p)) = (fst (disconnect s c), [])"
proof -
  let ?d = "socketId (heap s ! p)"
  let ?h1 = "(heap s)[a := (heap s ! a)\<lparr>currentRoom := None, partnerId := None\<rparr>]"
  from ir a have al: "a < length (heap s)" by (simp add: inv_reg_def)
  have q: "q < length (heap s)" if "map_of (connectedUsers s) d = Some q" for d q
    using ir that by (simp add: inv_reg_def)
  show "endCall (fst (endCall s c)) ?d = (fst (endCall s c), [])"
    unfolding endCall_session[OF as a p]
    by (rule endCall_noop_cleared) (simp add: clear_partner_target q)
  show "endCall (fst (rejectCall s c)) ?d = (fst (rejectCall s c), [])"
    unfolding rejectCall_session[OF as a p]
    by (rule endCall_noop_cleared) (simp add: clear_partner_target q)
  show "endCall (fst (rejectCall s c)) c = (fst (rejectCall s c), [])"
    unfolding rejectCall_session[OF as a p]
    by (rule endCall_noop_cleared) (use a al in \<open>simp add: clear_partner_nth\<close>)
  show "endCall (fst (disconnect s c)) ?d = (fst (disconnect s c), [])"
    unfolding disconnect_session[OF as a p]
    by (rule endCall_noop_cleared)
       (simp add: AList.delete_conv' clear_partner_target q split: if_splits)
qed

lemma disconnect_then_endCall: "endCall (fst (disconnect s c)) c = (fst (disconnect s c), [])"
  by (rule endCall_no_session) (simp add: activeSession_def reg_disconnect AList.delete_conv')

section \<open>The sweep and the registry\<close>

lemma waiting_cleanup_rooms [simp]: "waitingUsers (fold cleanup_room es s) = waitingUsers s"
  by (induction es arbitrary: s) (auto simp: cleanup_room_def)

lemma waiting_cleanup_users:
  "c \<notin> set (waitingUsers s) \<Longrightarrow> c \<notin> set (waitingUsers (fold (cleanup_user t) es s))"
proof (induction es arbitrary: s)
  case (Cons x es)
  have "c \<notin> set (waitingUsers (cleanup_user t x s))"
    using Cons.prems by (auto simp: cleanup_user_def set_delete_def split: prod.splits)
  from Cons.IH[OF this] show ?case by simp
qed simp

lemma reg_cleanup_users_None:
  "map_of (connectedUsers s) c = None \<Longrightarrow> map_of (connectedUsers (fold (cleanup_user t) es s)) c = None"
  using reg_cleanup_users[of t es s c] by (cases "map_of (connectedUsers (fold (cleanup_user t) es s)) c") auto

lemma cleanup_users_removes:
  assumes "(c, a) \<in> set es" "t - joinedAt (heap s ! a) > maxInactiveTime"
    "\<not> truthy (currentRoom (heap s ! a))"
  shows "map_of (connectedUsers (fold (cleanup_user t) es s)) c = None \<and>
         c \<notin> set (waitingUsers (fold (cleanup_user t) es s))"
  using assms
proof (induction es arbitrary: s)
  case (Cons x es)
  let ?s1 = "cleanup_user t x s"
  have h1: "heap ?s1 = heap s" by (auto simp: cleanup_user_def split: prod.splits)
  show ?case
  proof (cases "x = (c, a)")
    case True
    with Cons.prems have "map_of (connectedUsers ?s1) c = None" "c \<notin> set (waitingUsers ?s1)"
      by (simp_all add: cleanup_user_def AList.delete_conv' set_delete_def)
    then show ?thesis by (simp add: reg_cleanup_users_None waiting_cleanup_users)
  next
    case False
    with Cons.prems have "(c, a) \<in> set es" by simp
    from Cons.IH[OF this, of ?s1] Cons.prems(2,3) show ?thesis by (simp add: h1)
  qed
qed simp



section \<open>The queue and the notices of a match\<close>

lemma set_delete_subset: "set (set_delete x xs) \<subseteq> set xs"
  by (auto simp: set_delete_def)

lemma waiting_timeout: "set (waitingUsers (fst (searchTimeout s c a))) \<subseteq> set (waitingUsers s)"
  by (auto simp: searchTimeout_def set_delete_def)

lemma waiting_match: "set (waitingUsers (fst (matchUsers s c a p e))) \<subseteq> set (waitingUsers s)"
  by (auto simp: matchUsers_def Let_def socket_join_def set_delete_def)

lemma waiting_find: "set (waitingUsers (fst (findRandomPartner s c e))) \<subseteq> insert c (set (waitingUsers s))"
  using waiting_match[of s c _ _ e]
  by (auto simp: findRandomPartner_def set_add_def split: option.splits)

lemma waiting_reject [simp]: "waitingUsers (fst (rejectCall s c)) = waitingUsers s"
  by (simp add: rejectCall_def Let_def split: option.splits)

lemma waiting_end [simp]: "waitingUsers (fst (endCall s c)) = waitingUsers s"
  by (simp add: endCall_def Let_def split: option.splits)

lemma waiting_register [simp]: "waitingUsers (fst (registerUser s c uid info e)) = waitingUsers s"
  by (simp add: registerUser_def Let_def)

lemma waiting_disconnect: "set (waitingUsers (fst (disconnect s c))) \<subseteq> set (waitingUsers s)"
  by (auto simp: disconnect_def Let_def set_delete_def split: option.splits prod.splits if_splits)

lemma waiting_handle:
  assumes "c \<notin> set (waitingUsers s)" "\<not> (d = c \<and> m = FindRandomPartner)"
  shows "c \<notin> set (waitingUsers (fst (handle s d e m)))"
proof (cases m)
  case FindRandomPartner
  with assms waiting_find[of s d e] show ?thesis by auto
qed (use assms(1) in \<open>simp_all add: offer_def answer_def iceCandidate_def ping_def\<close>)

lemma waiting_step:
  assumes "c \<notin> set (waitingUsers s)" "snd x \<noteq> Receive c FindRandomPartner"
  shows "c \<notin> set (waitingUsers (fst (step s x)))"
proof (cases x)
  case (Pair e ev)
  show ?thesis
  proof (cases ev)
    case (Connect d)
    with Pair assms show ?thesis by simp
  next
    case (Receive d m)
    with Pair assms waiting_handle[of c s d m e] show ?thesis by auto
  next
    case (Disconnect d)
    let ?s1 = "s\<lparr>sockets := removeAll d (sockets s), joined := filter (\<lambda>(c', n). c' \<noteq> d) (joined s)\<rparr>"
    from waiting_disconnect[of ?s1 d] assms(1) have "c \<notin> set (waitingUsers (fst (disconnect ?s1 d)))"
      by auto
    with Pair Disconnect assms show ?thesis by simp
  next
    case (TimerFires d a)
    let ?s1 = "s\<lparr>timers := remove1 (d, a) (timers s)\<rparr>"
    from waiting_timeout[of ?s1 d a] assms(1) have "c \<notin> set (waitingUsers (fst (searchTimeout ?s1 d a)))"
      by auto
    with Pair TimerFires assms show ?thesis by simp
  next
    case CleanupTick
    with Pair assms(1) show ?thesis
      by (simp add: cleanupEmptyRooms_def cleanupInactiveUsers_def waiting_cleanup_users)
  qed
qed

lemma deliver_set:
  "(d, m) \<in> set (deliver s out) \<longleftrightarrow> (\<exists>t. (t, m) \<in> set out \<and> d \<in> set (recipients s t))"
  by (auto simp: deliver_def)

lemma notice_timeout: "(t, m) \<in> set (snd (searchTimeout s c a)) \<Longrightarrow> \<not> is_match_notice m"
  by (auto simp: searchTimeout_def is_match_notice_def split: if_splits)
lemma notice_register: "(t, m) \<in> set (snd (registerUser s c uid info e)) \<Longrightarrow> \<not> is_match_notice m"
  by (auto simp: registerUser_def Let_def is_match_notice_def)
lemma notice_accept: "(t, m) \<in> set (snd (acceptCall s c)) \<Longrightarrow> \<not> is_match_notice m"
  by (auto simp: acceptCall_def is_match_notice_def split: option.splits if_splits)
lemma notice_reject: "(t, m) \<in> set (snd (rejectCall s c)) \<Longrightarrow> \<not> is_match_notice m"
  by (auto simp: rejectCall_def Let_def is_match_notice_def split: option.splits if_splits)
lemma notice_end: "(t, m) \<in> set (snd (endCall s c)) \<Longrightarrow> \<not> is_match_notice m"
  by (auto simp: endCall_def Let_def is_match_notice_def split: option.splits if_splits)
lemma notice_disconnect: "(t, m) \<in> set (snd (disconnect s c)) \<Longrightarrow> \<not> is_match_notice m"
  by (auto simp: disconnect_def Let_def is_match_notice_def split: option.splits if_splits prod.splits)
lemma notice_relay:
  "(\<And>u. \<not> is_match_notice (mk u)) \<Longrightarrow> (t, m) \<in> set (snd (relay s c mk)) \<Longrightarrow> \<not> is_match_notice m"
  by (auto simp: relay_def split: option.splits if_splits)

subsection \<open>Whom a search addresses\<close>

lemma set_recipients_room:
  "set (recipients s (ToRoom n)) = {c \<in> set (sockets s). c = n \<or> (c, n) \<in> set (joined s)}"
  by (auto simp: recipients_def image_iff)

lemma recipients_socket_name:
  assumes "inv_names s" "w \<in> set (sockets s)"
  shows "set (recipients s (ToRoom w)) \<subseteq> {w}"
proof -
  from assms have "\<not> is_room_name w" by (simp add: inv_names_def)
  with assms(1) have "(x, w) \<notin> set (joined s)" for x by (auto simp: inv_names_def)
  then show ?thesis by (auto simp: set_recipients_room)
qed

lemma delivered_alt: "delivered s x = deliver (fst (step s x)) (snd (step s x))"
  by (simp add: delivered_def split: prod.splits)

lemma mu_out:
  assumes "a < length (heap s)" "p < length (heap s)"
  shows "snd (matchUsers s c a p e) =
     [(ToSocket c, PartnerFound (generateRoomId e) (userId (heap s ! p)) (university (heap s ! p))
                     (year (heap s ! p))),
      (ToRoom (socketId (heap s ! p)),
         IncomingCall (generateRoomId e) (userId (heap s ! a)) (university (heap s ! a))
                     (year (heap s ! a)))]"
  using assms by (cases "a = p") (simp_all add: matchUsers_def Let_def)

lemma find_targets:
  assumes i: "inv s" and t: "(t, m) \<in> set (snd (findRandomPartner s d e))" and n: "is_match_notice m"
  shows "t = ToSocket d \<or> (\<exists>w \<in> set (waitingUsers s). w \<in> set (sockets s) \<and> t = ToRoom w)"
proof (cases "map_of (connectedUsers s) d")
  case None
  with t n show ?thesis by (simp add: findRandomPartner_def is_match_notice_def)
next
  case (Some a)
  show ?thesis
  proof (cases "isWaiting (heap s ! a)")
    case True
    with Some t n show ?thesis by (simp add: findRandomPartner_def is_match_notice_def)
  next
    case False
    show ?thesis
    proof (cases "findPartner s (heap s ! a)")
      case None
      with Some False t n show ?thesis by (simp add: findRandomPartner_def is_match_notice_def)
    next
      case (Some p)
      from findPartner_Some[OF Some] obtain w where w: "w \<in> set (waitingUsers s)"
        "map_of (connectedUsers s) w = Some p" by blast
      with invD(1)[OF i] have p: "p < length (heap s)" "socketId (heap s ! p) = w" "w \<in> set (sockets s)"
        by (auto simp: inv_reg_def)
      from invD(1)[OF i] \<open>map_of (connectedUsers s) d = Some a\<close> have a: "a < length (heap s)"
        by (simp add: inv_reg_def)
      from t Some False \<open>map_of (connectedUsers s) d = Some a\<close> w(1) p(3) show ?thesis
        by (auto simp: findRandomPartner_def mu_out[OF a p(1)] p(2))
    qed
  qed
qed

lemma no_notice_step:
  assumes i: "inv s" and ok: "env_ok s x" and c: "c \<notin> set (waitingUsers s)"
    and x: "snd x \<noteq> Receive c FindRandomPartner"
    and d: "(c, m) \<in> set (delivered s x)"
  shows "\<not> is_match_notice m"
proof
  assume n: "is_match_notice m"
  obtain e ev where xe: "x = (e, ev)" by (cases x)
  let ?s' = "fst (step s x)"
  have i': "inv ?s'" using i ok by (rule inv_step)
  from d obtain t where t: "(t, m) \<in> set (snd (step s x))" "c \<in> set (recipients ?s' t)"
    unfolding delivered_alt deliver_set by blast
  show False
  proof (cases ev)
    case (Connect d)
    with xe t show False by (simp split: if_splits)
  next
    case (Receive d msg)
    show False
    proof (cases "d \<in> set (sockets s)")
      case False
      with xe Receive t show False by simp
    next
      case True
      show False
      proof (cases msg)
        case FindRandomPartner
        with x xe Receive have dc: "d \<noteq> c" by auto
        from t(1) xe Receive True FindRandomPartner
        have "(t, m) \<in> set (snd (findRandomPartner s d e))" by simp
        from find_targets[OF i this n] show False
        proof
          assume "t = ToSocket d"
          with t(2) dc show False by (auto simp: recipients_def split: if_splits)
        next
          assume "\<exists>w \<in> set (waitingUsers s). w \<in> set (sockets s) \<and> t = ToRoom w"
          then obtain w where w: "w \<in> set (waitingUsers s)" "w \<in> set (sockets s)" "t = ToRoom w" by blast
          have "sockets ?s' = sockets s" using xe Receive True FindRandomPartner by simp
          with w(2) recipients_socket_name[OF invD(2)[OF i'], of w] t(2) w(3) have "c = w" by auto
          with w(1) c show False by simp
        qed
      next
        case (RegisterUser uid info)
        with xe Receive True t(1) n show False by (auto dest: notice_register)
      next
        case AcceptCall
        with xe Receive True t(1) n show False by (auto dest: notice_accept)
      next
        case RejectCall
        with xe Receive True t(1) n show False by (auto dest: notice_reject)
      next
        case (OfferMsg sdp ty)
        with xe Receive True t(1) n notice_relay[of "Offer sdp ty" t m s d] show False
          by (auto simp: offer_def is_match_notice_def)
      next
        case (AnswerMsg sdp ty)
        with xe Receive True t(1) n notice_relay[of "Answer sdp ty" t m s d] show False
          by (auto simp: answer_def is_match_notice_def)
      next
        case (IceCandidateMsg cand)
        with xe Receive True t(1) n notice_relay[of "IceCandidate cand" t m s d] show False
          by (auto simp: iceCandidate_def is_match_notice_def)
      next
        case EndCall
        with xe Receive True t(1) n show False by (auto dest: notice_end)
      next
        case Ping
        with xe Receive True t(1) n show False by (auto simp: ping_def is_match_notice_def)
      qed
    qed
  next
    case (Disconnect d)
    with xe t(1) n show False by (auto dest: notice_disconnect split: if_splits)
  next
    case (TimerFires d a)
    with xe t(1) n show False by (auto dest: notice_timeout split: if_splits)
  next
    case CleanupTick
    with xe t(1) show False by simp
  qed
qed

lemma not_selected:
  assumes "inv_reg s" "c \<notin> set (waitingUsers s)" "findPartner s u = Some p"
  shows "map_of (connectedUsers s) c \<noteq> Some p"
proof
  assume cp: "map_of (connectedUsers s) c = Some p"
  from findPartner_Some[OF assms(3)] obtain w where w: "w \<in> set (waitingUsers s)"
    "map_of (connectedUsers s) w = Some p" by blast
  from assms(1) cp w(2) have "c = w" unfolding inv_reg_def by metis
  with w(1) assms(2) show False by simp
qed

lemma after_timeout_run:
  assumes "inv s" "run_ok s ys" "c \<notin> set (waitingUsers s)"
    "\<forall>y \<in> set ys. snd y \<noteq> Receive c FindRandomPartner"
  shows "(\<forall>n. c \<notin> set (waitingUsers (exec s (take n ys)))) \<and>
         (\<forall>n u p. findPartner (exec s (take n ys)) u = Some p \<longrightarrow>
                   map_of (connectedUsers (exec s (take n ys))) c \<noteq> Some p) \<and>
         (\<forall>m. (c, m) \<in> set (all_delivered s ys) \<longrightarrow> \<not> is_match_notice m)"
  using assms
proof (induction ys arbitrary: s)
  case Nil
  then show ?case by (auto dest: not_selected[OF invD(1)])
next
  case (Cons y ys)
  let ?s1 = "fst (step s y)"
  from Cons.prems have ok: "env_ok s y" and y: "snd y \<noteq> Receive c FindRandomPartner" by auto
  have i1: "inv ?s1" using Cons.prems(1) ok by (rule inv_step)
  have w1: "c \<notin> set (waitingUsers ?s1)" using Cons.prems(3) y by (rule waiting_step)
  from Cons.prems have r1: "run_ok ?s1 ys" and n1: "\<forall>y \<in> set ys. snd y \<noteq> Receive c FindRandomPartner"
    by auto
  note IH = Cons.IH[OF i1 r1 w1 n1]
  have a: "c \<notin> set (waitingUsers (exec s (take n (y # ys))))" for n
    using IH Cons.prems(3) by (cases n) auto
  have b: "map_of (connectedUsers (exec s (take n (y # ys)))) c \<noteq> Some p"
    if "findPartner (exec s (take n (y # ys))) u = Some p" for n u p
  proof (cases n)
    case 0
    with that not_selected[OF invD(1)[OF Cons.prems(1)] Cons.prems(3)] show ?thesis by simp
  next
    case (Suc k)
    with that IH show ?thesis by simp
  qed
  have c: "\<not> is_match_notice m" if "(c, m) \<in> set (all_delivered s (y # ys))" for m
    using that no_notice_step[OF Cons.prems(1) ok Cons.prems(3) y] IH by auto
  from a b c show ?case by blast
qed

section \<open>The members of a session\<close>

lemma relay_session:
  assumes "activeSession s c = Some r" "map_of (connectedUsers s) c = Some a"
    "getOtherUser (heap s) r (userId (heap s ! a)) = Some p"
  shows "relay s c mk = (s, [(ToRoom (socketId (heap s ! p)), mk (userId (heap s ! a)))])"
  using assms by (auto simp: relay_def activeSession_def split: option.splits if_splits)

lemma acceptCall_session:
  assumes "activeSession s c = Some r" "map_of (connectedUsers s) c = Some a"
    "getOtherUser (heap s) r (userId (heap s ! a)) = Some p"
  shows "acceptCall s c = (s, [(ToRoom (roomId r), CallAccepted (roomId r) (userId (heap s ! a)))])"
  using assms by (auto simp: acceptCall_def activeSession_def split: option.splits if_splits)

lemma deliver_single: "fst ` set (deliver s [(t, m)]) = set (recipients s t)"
  by (auto simp: deliver_def image_iff)

lemma session_members:
  assumes i: "inv s" and as: "activeSession s c = Some r" and a: "map_of (connectedUsers s) c = Some a"
  shows "\<exists>p. set (users r) = {a, p} \<and> a \<noteq> p \<and> p < length (heap s) \<and>
             getOtherUser (heap s) r (userId (heap s ! a)) = Some p \<and>
             socketId (heap s ! p) \<noteq> c \<and> c \<in> set (sockets s) \<and>
             (c, roomId r) \<in> set (joined s)"
proof -
  from as a have k: "truthy (currentRoom (heap s ! a))"
    "map_of (activeRooms s) (the (currentRoom (heap s ! a))) = Some r"
    by (auto simp: activeSession_def split: if_splits)
  then obtain k where cr: "currentRoom (heap s ! a) = Some k" and rk: "map_of (activeRooms s) k = Some r"
    by (cases "currentRoom (heap s ! a)") (auto simp: truthy_def)
  from invD(4)[OF i] a cr rk have mem: "a \<in> set (users r)" "(c, k) \<in> set (joined s)"
    unfolding inv_session_def by blast+
  from invD(3)[OF i] rk obtain x y where r: "roomId r = k" "users r = [x, y]" "x < length (heap s)"
     "y < length (heap s)" "userId (heap s ! x) \<noteq> userId (heap s ! y)"
     "socketId (heap s ! x) \<noteq> socketId (heap s ! y)"
    unfolding inv_rooms_def by blast
  from invD(1)[OF i] a have ar: "socketId (heap s ! a) = c" "c \<in> set (sockets s)"
    by (auto simp: inv_reg_def)
  show ?thesis
  proof (cases "a = x")
    case True
    with r ar mem show ?thesis
      by (intro exI[of _ y]) (auto simp: getOtherUser_def)
  next
    case False
    with mem r have "a = y" by simp
    with r ar mem show ?thesis
      by (intro exI[of _ x]) (auto simp: getOtherUser_def)
  qed
qed

section \<open>The queue follows the searching flag, registrations during a search apart\<close>

lemma same_waiting_refl [simp]: "same_waiting h h"
  by (simp add: same_waiting_def)

lemma same_waiting_trans: "same_waiting h1 h2 \<Longrightarrow> same_waiting h2 h3 \<Longrightarrow> same_waiting h1 h3"
  by (simp add: same_waiting_def)

lemma same_waiting_update:
  assumes "socketId u = socketId (h ! a)" "isWaiting u = isWaiting (h ! a)"
  shows "same_waiting h (h[a := u])"
  unfolding same_waiting_def
proof (intro conjI allI impI)
  fix b assume "b < length h"
  then show "socketId (h[a := u] ! b) = socketId (h ! b)" using assms by (cases "b = a") simp_all
  show "isWaiting (h[a := u] ! b) = isWaiting (h ! b)" using assms \<open>b < length h\<close> by (cases "b = a") simp_all
qed simp

lemma same_waiting_clear_partner: "same_waiting h (clear_partner s c h)"
  by (auto simp: clear_partner_def intro!: same_waiting_update split: option.splits)

lemma sw_reject: "same_waiting (heap s) (heap (fst (rejectCall s c)))"
  by (auto simp: rejectCall_def Let_def split: option.splits
      intro!: same_waiting_trans[OF same_waiting_update same_waiting_clear_partner])

lemma sw_end: "same_waiting (heap s) (heap (fst (endCall s c)))"
  by (auto simp: endCall_def Let_def same_waiting_update split: option.splits
      intro!: same_waiting_trans[OF same_waiting_update same_waiting_clear_partner])

lemma sw_disconnect: "same_waiting (heap s) (heap (fst (disconnect s c)))"
  by (auto simp: disconnect_def Let_def same_waiting_clear_partner split: option.splits prod.splits if_splits)

lemma timers_reject [simp]: "timers (fst (rejectCall s c)) = timers s"
  by (simp add: rejectCall_def Let_def split: option.splits)
lemma timers_end [simp]: "timers (fst (endCall s c)) = timers s"
  by (simp add: endCall_def Let_def split: option.splits)
lemma timers_disconnect [simp]: "timers (fst (disconnect s c)) = timers s"
  by (auto simp: disconnect_def Let_def split: option.splits prod.splits if_splits)
lemma waiting_disconnect_eq:
  "set (waitingUsers (fst (disconnect s c))) =
     (if map_of (connectedUsers s) c = None then set (waitingUsers s) else set (waitingUsers s) - {c})"
  by (auto simp: disconnect_def Let_def set_delete_def split: option.splits prod.splits if_splits)

lemma inv_timersD:
  assumes "inv_timers s" "(c, a) \<in> set (timers s)"
  shows "a < length (heap s)" "socketId (heap s ! a) = c"
    "isWaiting (heap s ! a) \<Longrightarrow> map_of (connectedUsers s) c = Some a \<or> map_of (connectedUsers s) c = None"
  using assms(1)[unfolded inv_timers_def, rule_format, of c a] assms(2) by simp_all

lemma inv_regD:
  assumes "inv_reg s" "map_of (connectedUsers s) c = Some a"
  shows "a < length (heap s)" "socketId (heap s ! a) = c" "c \<in> set (sockets s)"
  using assms(1)[unfolded inv_reg_def, rule_format, of c a] assms(2) by simp_all

lemma queue_matchesD:
  assumes "queue_matches s"
  shows "c \<in> set (waitingUsers s) \<longleftrightarrow> (\<exists>a. map_of (connectedUsers s) c = Some a \<and> isWaiting (heap s ! a))"
  using assms[unfolded queue_matches_def, rule_format, of c] .

lemma inv_queue_frame:
  assumes ir: "inv_reg s" and i: "inv_queue s" and sw: "same_waiting (heap s) (heap s')"
    and r: "connectedUsers s' = connectedUsers s" and w: "waitingUsers s' = waitingUsers s"
    and t: "set (timers s') \<subseteq> set (timers s)"
  shows "inv_queue s'"
proof -
  from i have q: "queue_matches s" and it: "inv_timers s" by (simp_all add: inv_queue_def)
  have 2: "queue_matches s'"
    unfolding queue_matches_def
  proof
    fix c
    have "isWaiting (heap s' ! a) = isWaiting (heap s ! a)" if "map_of (connectedUsers s) c = Some a" for a
    proof -
      from ir that have "a < length (heap s)" by (rule inv_regD)
      with sw show ?thesis by (simp add: same_waiting_def)
    qed
    then have "(\<exists>a. map_of (connectedUsers s') c = Some a \<and> isWaiting (heap s' ! a)) \<longleftrightarrow>
          (\<exists>a. map_of (connectedUsers s) c = Some a \<and> isWaiting (heap s ! a))"
      unfolding r by auto
    with queue_matchesD[OF q, of c]
    show "c \<in> set (waitingUsers s') \<longleftrightarrow> (\<exists>a. map_of (connectedUsers s') c = Some a \<and> isWaiting (heap s' ! a))"
      unfolding w by simp
  qed
  have 3: "inv_timers s'"
    unfolding inv_timers_def
  proof (intro allI impI)
    fix c a assume "(c, a) \<in> set (timers s')"
    with t have m: "(c, a) \<in> set (timers s)" by auto
    note a = inv_timersD[OF it m]
    from sw a(1) have "a < length (heap s')" "socketId (heap s' ! a) = socketId (heap s ! a)"
      "isWaiting (heap s' ! a) = isWaiting (heap s ! a)" by (simp_all add: same_waiting_def)
    with a show "a < length (heap s') \<and> socketId (heap s' ! a) = c \<and>
        (isWaiting (heap s' ! a) \<longrightarrow> map_of (connectedUsers s') c = Some a \<or> map_of (connectedUsers s') c = None)"
      unfolding r by simp
  qed
  from 2 3 show ?thesis by (simp add: inv_queue_def)
qed

lemma reg_inj:
  assumes "inv_reg s" "map_of (connectedUsers s) c = Some a" "map_of (connectedUsers s) d = Some a"
  shows "c = d"
proof -
  from assms(1,2) have "socketId (heap s ! a) = c" by (simp add: inv_reg_def)
  moreover from assms(1,3) have "socketId (heap s ! a) = d" by (simp add: inv_reg_def)
  ultimately show ?thesis by simp
qed


lemma inv_queue_reject: "inv_reg s \<Longrightarrow> inv_queue s \<Longrightarrow> inv_queue (fst (rejectCall s c))"
  by (erule (1) inv_queue_frame) (simp_all add: sw_reject)

lemma inv_queue_end: "inv_reg s \<Longrightarrow> inv_queue s \<Longrightarrow> inv_queue (fst (endCall s c))"
  by (erule (1) inv_queue_frame) (simp_all add: sw_end)

lemma inv_queue_register:
  assumes ir: "inv_reg s" and i: "inv_queue s"
    and g: "c \<notin> set (waitingUsers s)" "\<forall>x \<in> set (timers s). fst x = c \<longrightarrow> \<not> isWaiting (heap s ! snd x)"
  shows "inv_queue (fst (registerUser s c uid info e))"
proof -
  let ?s' = "fst (registerUser s c uid info e)"
  from i have q: "queue_matches s" and it: "inv_timers s" by (simp_all add: inv_queue_def)
  have h': "heap ?s' = heap s @ [User c uid info (now e)]"
    and r': "connectedUsers ?s' = AList.update c (length (heap s)) (connectedUsers s)"
    and o': "waitingUsers ?s' = waitingUsers s" "timers ?s' = timers s"
    by (simp_all add: registerUser_def Let_def)
  have new: "\<not> isWaiting (heap ?s' ! length (heap s))" by (simp add: h' User_def)
  have old: "heap ?s' ! a = heap s ! a" if "a < length (heap s)" for a
    using that by (simp add: h' nth_append)
  have 2: "queue_matches ?s'"
    unfolding queue_matches_def
  proof
    fix d
    show "d \<in> set (waitingUsers ?s') \<longleftrightarrow> (\<exists>a. map_of (connectedUsers ?s') d = Some a \<and> isWaiting (heap ?s' ! a))"
    proof (cases "d = c")
      case True
      with g(1) new show ?thesis by (simp add: o' r' AList.update_conv')
    next
      case False
      have "isWaiting (heap ?s' ! a) = isWaiting (heap s ! a)" if "map_of (connectedUsers s) d = Some a" for a
        using old[OF inv_regD(1)[OF ir that]] by simp
      then have "(\<exists>a. map_of (connectedUsers s) d = Some a \<and> isWaiting (heap ?s' ! a)) \<longleftrightarrow>
                 (\<exists>a. map_of (connectedUsers s) d = Some a \<and> isWaiting (heap s ! a))" by auto
      with False queue_matchesD[OF q, of d] show ?thesis by (simp add: o' r' AList.update_conv')
    qed
  qed
  have 3: "inv_timers ?s'"
    unfolding inv_timers_def
  proof (intro allI impI)
    fix d a assume "(d, a) \<in> set (timers ?s')"
    then have m: "(d, a) \<in> set (timers s)" by (simp add: o')
    note a = inv_timersD[OF it m]
    show "a < length (heap ?s') \<and> socketId (heap ?s' ! a) = d \<and>
        (isWaiting (heap ?s' ! a) \<longrightarrow> map_of (connectedUsers ?s') d = Some a \<or> map_of (connectedUsers ?s') d = None)"
    proof (cases "d = c")
      case True
      with g(2) m have "\<not> isWaiting (heap s ! a)" by auto
      with a(1,2) show ?thesis by (simp add: old) (simp add: h')
    next
      case False
      with a show ?thesis by (simp add: old r' AList.update_conv') (simp add: h')
    qed
  qed
  from 2 3 show ?thesis by (simp add: inv_queue_def)
qed

lemma set_set_add [simp]: "set (set_add x xs) = insert x (set xs)"
  by (auto simp: set_add_def)

lemma set_set_delete [simp]: "set (set_delete x xs) = set xs - {x}"
  by (auto simp: set_delete_def)

lemma reg_neq:
  assumes "inv_reg s" "map_of (connectedUsers s) d = Some b" "map_of (connectedUsers s) c = Some a" "d \<noteq> c"
  shows "b \<noteq> a"
  using reg_inj[OF assms(1), of d b c] assms(2,3,4) by auto

lemma mu_waiting:
  "set (waitingUsers (fst (matchUsers s c a p e))) =
     set (waitingUsers s) - {socketId (heap s ! a), socketId (heap s ! p)}"
  by (auto simp: matchUsers_def Let_def socket_join_def)

lemma mu_timers [simp]: "timers (fst (matchUsers s c a p e)) = timers s"
  by (simp add: matchUsers_def Let_def socket_join_def)

lemma mu_isWaiting:
  assumes "b < length (heap s)"
  shows "isWaiting (heap (fst (matchUsers s c a p e)) ! b) =
           (if b = a \<or> b = p then False else isWaiting (heap s ! b))"
  unfolding mu_heap using assms by (auto simp: nth_list_update)

lemma inv_queue_match:
  assumes ir: "inv_reg s" and i: "inv_queue s" and m: "map_of (connectedUsers s) c = Some a"
    and f: "findPartner s (heap s ! a) = Some p"
  shows "inv_queue (fst (matchUsers s c a p e))"
proof -
  let ?s' = "fst (matchUsers s c a p e)"
  from i have q: "queue_matches s" and it: "inv_timers s" by (simp_all add: inv_queue_def)
  from findPartner_Some[OF f] obtain w where w: "w \<in> set (waitingUsers s)"
     "map_of (connectedUsers s) w = Some p" by blast
  note a = inv_regD[OF ir m]
  note p = inv_regD[OF ir w(2)]
  have W: "set (waitingUsers ?s') = set (waitingUsers s) - {c, w}"
    unfolding mu_waiting a(2) p(2) ..
  have 2: "queue_matches ?s'"
    unfolding queue_matches_def
  proof
    fix d
    show "d \<in> set (waitingUsers ?s') \<longleftrightarrow> (\<exists>b. map_of (connectedUsers ?s') d = Some b \<and> isWaiting (heap ?s' ! b))"
    proof (cases "d = c \<or> d = w")
      case True
      then have "map_of (connectedUsers s) d = Some a \<or> map_of (connectedUsers s) d = Some p"
        using m w(2) by auto
      then have "\<not> (\<exists>b. map_of (connectedUsers ?s') d = Some b \<and> isWaiting (heap ?s' ! b))"
        using a(1) p(1) by (auto simp: mu_isWaiting)
      with True show ?thesis unfolding W by auto
    next
      case False
      have "isWaiting (heap ?s' ! b) = isWaiting (heap s ! b)" if "map_of (connectedUsers s) d = Some b" for b
      proof -
        from False reg_neq[OF ir that m] reg_neq[OF ir that w(2)] have "b \<noteq> a" "b \<noteq> p" by auto
        with inv_regD(1)[OF ir that] show ?thesis by (simp add: mu_isWaiting)
      qed
      then have "(\<exists>b. map_of (connectedUsers s) d = Some b \<and> isWaiting (heap ?s' ! b)) \<longleftrightarrow>
                 (\<exists>b. map_of (connectedUsers s) d = Some b \<and> isWaiting (heap s ! b))" by auto
      with False queue_matchesD[OF q, of d] show ?thesis unfolding W by simp
    qed
  qed
  have 3: "inv_timers ?s'"
    unfolding inv_timers_def
  proof (intro allI impI)
    fix d b assume "(d, b) \<in> set (timers ?s')"
    then have mem: "(d, b) \<in> set (timers s)" by simp
    note b = inv_timersD[OF it mem]
    from b(1) have "isWaiting (heap ?s' ! b) \<Longrightarrow> isWaiting (heap s ! b)"
      by (simp add: mu_isWaiting split: if_splits)
    with b show "b < length (heap ?s') \<and> socketId (heap ?s' ! b) = d \<and>
        (isWaiting (heap ?s' ! b) \<longrightarrow> map_of (connectedUsers ?s') d = Some b \<or> map_of (connectedUsers ?s') d = None)"
      by (auto simp: mu_nth)
  qed
  from 2 3 show ?thesis by (simp add: inv_queue_def)
qed

lemma inv_queue_enqueue:
  assumes ir: "inv_reg s" and i: "inv_queue s" and m: "map_of (connectedUsers s) c = Some a"
  shows "inv_queue (s\<lparr>heap := (heap s)[a := (heap s ! a)\<lparr>isWaiting := True\<rparr>],
                       waitingUsers := set_add c (waitingUsers s),
                       timers := timers s @ [(c, a)]\<rparr>)"
    (is "inv_queue ?s'")
proof -
  from i have q: "queue_matches s" and it: "inv_timers s" by (simp_all add: inv_queue_def)
  note a = inv_regD[OF ir m]
  have hw: "isWaiting (heap ?s' ! b) = (if b = a then True else isWaiting (heap s ! b))"
    if "b < length (heap s)" for b using that by (simp add: nth_list_update)
  have hs: "socketId (heap ?s' ! b) = socketId (heap s ! b)" if "b < length (heap s)" for b
    using that by (cases "b = a") simp_all
  have 2: "queue_matches ?s'"
    unfolding queue_matches_def
  proof
    fix d
    show "d \<in> set (waitingUsers ?s') \<longleftrightarrow> (\<exists>b. map_of (connectedUsers ?s') d = Some b \<and> isWaiting (heap ?s' ! b))"
    proof (cases "d = c")
      case True
      with m a(1) show ?thesis by (simp add: hw)
    next
      case False
      have "isWaiting (heap ?s' ! b) = isWaiting (heap s ! b)" if "map_of (connectedUsers s) d = Some b" for b
      proof -
        from False reg_neq[OF ir that m] have "b \<noteq> a" by auto
        with inv_regD(1)[OF ir that] show ?thesis by (simp add: hw)
      qed
      then have "(\<exists>b. map_of (connectedUsers s) d = Some b \<and> isWaiting (heap ?s' ! b)) \<longleftrightarrow>
                 (\<exists>b. map_of (connectedUsers s) d = Some b \<and> isWaiting (heap s ! b))" by auto
      with False queue_matchesD[OF q, of d] show ?thesis by simp
    qed
  qed
  have 3: "inv_timers ?s'"
    unfolding inv_timers_def
  proof (intro allI impI)
    fix d b assume mem': "(d, b) \<in> set (timers ?s')"
    show "b < length (heap ?s') \<and> socketId (heap ?s' ! b) = d \<and>
        (isWaiting (heap ?s' ! b) \<longrightarrow> map_of (connectedUsers ?s') d = Some b \<or> map_of (connectedUsers ?s') d = None)"
    proof (cases "b = a")
      case True
      have "d = c"
      proof (cases "(d, b) = (c, a)")
        case False
        with mem' have "(d, b) \<in> set (timers s)" by auto
        from inv_timersD(2)[OF it this] True a(2) show ?thesis by simp
      qed simp
      with True m a show ?thesis by (simp add: hs)
    next
      case False
      with mem' have mem: "(d, b) \<in> set (timers s)" by auto
      note b = inv_timersD[OF it mem]
      with False show ?thesis by (simp add: hw hs)
    qed
  qed
  from 2 3 show ?thesis by (simp add: inv_queue_def)
qed

lemma inv_queue_find:
  assumes "inv_reg s" "inv_queue s"
  shows "inv_queue (fst (findRandomPartner s c e))"
proof (cases "map_of (connectedUsers s) c")
  case None
  with assms(2) show ?thesis by (simp add: findRandomPartner_def)
next
  case (Some a)
  show ?thesis
  proof (cases "isWaiting (heap s ! a)")
    case True
    with Some assms(2) show ?thesis by (simp add: findRandomPartner_def)
  next
    case False
    show ?thesis
    proof (cases "findPartner s (heap s ! a)")
      case (Some p)
      from inv_queue_match[OF assms \<open>map_of (connectedUsers s) c = Some a\<close> Some]
      show ?thesis using Some False \<open>map_of (connectedUsers s) c = Some a\<close>
        by (simp add: findRandomPartner_def)
    next
      case None
      from inv_queue_enqueue[OF assms \<open>map_of (connectedUsers s) c = Some a\<close>]
      show ?thesis using None False \<open>map_of (connectedUsers s) c = Some a\<close>
        by (simp add: findRandomPartner_def)
    qed
  qed
qed

lemma inv_queue_timeout:
  assumes ir: "inv_reg s" and i: "inv_queue s" and mem: "(c, a) \<in> set (timers s)"
  shows "inv_queue (fst (searchTimeout (s\<lparr>timers := remove1 (c, a) (timers s)\<rparr>) c a))"
proof -
  let ?s1 = "s\<lparr>timers := remove1 (c, a) (timers s)\<rparr>"
  from i have q: "queue_matches s" and it: "inv_timers s" by (simp_all add: inv_queue_def)
  have i1: "inv_queue ?s1"
    using ir i by (rule inv_queue_frame) (use set_remove1_subset[of "(c, a)" "timers s"] in auto)
  show ?thesis
  proof (cases "isWaiting (heap s ! a) \<and> c \<in> set (waitingUsers s)")
    case False
    with i1 show ?thesis by (auto simp: searchTimeout_def)
  next
    case True
    let ?s' = "s\<lparr>timers := remove1 (c, a) (timers s), waitingUsers := set_delete c (waitingUsers s),
                  heap := (heap s)[a := (heap s ! a)\<lparr>isWaiting := False\<rparr>]\<rparr>"
    from True have s': "fst (searchTimeout ?s1 c a) = ?s'" by (simp add: searchTimeout_def)
    note ta = inv_timersD[OF it mem]
    from True queue_matchesD[OF q, of c] obtain b where "map_of (connectedUsers s) c = Some b" by auto
    with ta(3) True have m: "map_of (connectedUsers s) c = Some a" by auto
    have hw: "isWaiting (heap ?s' ! b) = (if b = a then False else isWaiting (heap s ! b))"
      if "b < length (heap s)" for b using that by (simp add: nth_list_update)
    have hs: "socketId (heap ?s' ! b) = socketId (heap s ! b)" if "b < length (heap s)" for b
      using that by (cases "b = a") simp_all
    have 2: "queue_matches ?s'"
      unfolding queue_matches_def
    proof
      fix d
      show "d \<in> set (waitingUsers ?s') \<longleftrightarrow> (\<exists>b. map_of (connectedUsers ?s') d = Some b \<and> isWaiting (heap ?s' ! b))"
      proof (cases "d = c")
        case True
        with m ta(1) show ?thesis by (simp add: hw)
      next
        case False
        have "isWaiting (heap ?s' ! b) = isWaiting (heap s ! b)" if "map_of (connectedUsers s) d = Some b" for b
        proof -
          from False reg_neq[OF ir that m] have "b \<noteq> a" by auto
          with inv_regD(1)[OF ir that] show ?thesis by (simp add: hw)
        qed
        then have "(\<exists>b. map_of (connectedUsers s) d = Some b \<and> isWaiting (heap ?s' ! b)) \<longleftrightarrow>
                   (\<exists>b. map_of (connectedUsers s) d = Some b \<and> isWaiting (heap s ! b))" by auto
        with False queue_matchesD[OF q, of d] show ?thesis by simp
      qed
    qed
    have 3: "inv_timers ?s'"
      unfolding inv_timers_def
    proof (intro allI impI)
      fix d b assume "(d, b) \<in> set (timers ?s')"
      then have mem2: "(d, b) \<in> set (timers s)" using set_remove1_subset[of "(c, a)" "timers s"] by auto
      note b = inv_timersD[OF it mem2]
      then show "b < length (heap ?s') \<and> socketId (heap ?s' ! b) = d \<and>
        (isWaiting (heap ?s' ! b) \<longrightarrow> map_of (connectedUsers ?s') d = Some b \<or> map_of (connectedUsers ?s') d = None)"
        by (cases "b = a") (simp_all add: hw hs)
    qed
    from 2 3 show ?thesis unfolding s' by (simp add: inv_queue_def)
  qed
qed


lemma inv_queue_disconnect:
  assumes ir: "inv_reg s" and i: "inv_queue s"
  shows "inv_queue (fst (disconnect s c))"
proof -
  let ?s' = "fst (disconnect s c)"
  from i have q: "queue_matches s" and it: "inv_timers s" by (simp_all add: inv_queue_def)
  note sw = sw_disconnect[of s c]
  have hw: "isWaiting (heap ?s' ! b) = isWaiting (heap s ! b)" if "b < length (heap s)" for b
    using sw that by (simp add: same_waiting_def)
  have r': "map_of (connectedUsers ?s') d = (if d = c then None else map_of (connectedUsers s) d)" for d
    by (simp add: reg_disconnect AList.delete_conv')
  have 2: "queue_matches ?s'"
    unfolding queue_matches_def
  proof
    fix d
    show "d \<in> set (waitingUsers ?s') \<longleftrightarrow> (\<exists>b. map_of (connectedUsers ?s') d = Some b \<and> isWaiting (heap ?s' ! b))"
    proof (cases "d = c")
      case True
      show ?thesis
      proof (cases "map_of (connectedUsers s) c")
        case None
        with queue_matchesD[OF q, of c] have "c \<notin> set (waitingUsers s)" by simp
        with None True show ?thesis by (simp add: waiting_disconnect_eq r')
      next
        case (Some a)
        with True show ?thesis by (simp add: waiting_disconnect_eq r')
      qed
    next
      case False
      have "isWaiting (heap ?s' ! b) = isWaiting (heap s ! b)" if "map_of (connectedUsers s) d = Some b" for b
        using hw[OF inv_regD(1)[OF ir that]] .
      then have "(\<exists>b. map_of (connectedUsers s) d = Some b \<and> isWaiting (heap ?s' ! b)) \<longleftrightarrow>
                 (\<exists>b. map_of (connectedUsers s) d = Some b \<and> isWaiting (heap s ! b))" by auto
      with False queue_matchesD[OF q, of d] show ?thesis by (simp add: waiting_disconnect_eq r')
    qed
  qed
  have 3: "inv_timers ?s'"
    unfolding inv_timers_def
  proof (intro allI impI)
    fix d b assume "(d, b) \<in> set (timers ?s')"
    then have mem: "(d, b) \<in> set (timers s)" by simp
    note b = inv_timersD[OF it mem]
    from sw b(1) have "b < length (heap ?s')" "socketId (heap ?s' ! b) = socketId (heap s ! b)"
      by (simp_all add: same_waiting_def)
    with b show "b < length (heap ?s') \<and> socketId (heap ?s' ! b) = d \<and>
        (isWaiting (heap ?s' ! b) \<longrightarrow> map_of (connectedUsers ?s') d = Some b \<or> map_of (connectedUsers ?s') d = None)"
      by (simp add: hw r')
  qed
  from 2 3 show ?thesis by (simp add: inv_queue_def)
qed

lemma timers_cleanup_users [simp]: "timers (fold (cleanup_user t) es s) = timers s"
  by (induction es arbitrary: s) (auto simp: cleanup_user_def)
lemma timers_cleanup_rooms [simp]: "timers (fold cleanup_room es s) = timers s"
  by (induction es arbitrary: s) (auto simp: cleanup_room_def)

lemma cleanup_users_rel:
  "(map_of (connectedUsers (fold (cleanup_user t) es s)) d = None \<and>
      d \<notin> set (waitingUsers (fold (cleanup_user t) es s))) \<or>
   (map_of (connectedUsers (fold (cleanup_user t) es s)) d = map_of (connectedUsers s) d \<and>
      (d \<in> set (waitingUsers (fold (cleanup_user t) es s)) \<longleftrightarrow> d \<in> set (waitingUsers s)))"
proof (induction es arbitrary: s)
  case Nil
  then show ?case by simp
next
  case (Cons x es)
  let ?s1 = "cleanup_user t x s"
  have 1: "(map_of (connectedUsers ?s1) d = None \<and> d \<notin> set (waitingUsers ?s1)) \<or>
           (map_of (connectedUsers ?s1) d = map_of (connectedUsers s) d \<and>
            (d \<in> set (waitingUsers ?s1) \<longleftrightarrow> d \<in> set (waitingUsers s)))"
    by (cases x) (simp add: cleanup_user_def AList.delete_conv')
  from Cons.IH[of ?s1] 1 show ?case by auto
qed

lemma inv_queue_cleanup:
  assumes ir: "inv_reg s" and i: "inv_queue s"
  shows "inv_queue (cleanupEmptyRooms (cleanupInactiveUsers t s))"
proof -
  let ?s' = "cleanupEmptyRooms (cleanupInactiveUsers t s)"
  from i have q: "queue_matches s" and it: "inv_timers s" by (simp_all add: inv_queue_def)
  have h': "heap ?s' = heap s" and t': "timers ?s' = timers s"
    by (simp_all add: cleanupEmptyRooms_def cleanupInactiveUsers_def heap_cleanup_users heap_cleanup_rooms)
  have rel: "(map_of (connectedUsers ?s') d = None \<and> d \<notin> set (waitingUsers ?s')) \<or>
             (map_of (connectedUsers ?s') d = map_of (connectedUsers s) d \<and>
               (d \<in> set (waitingUsers ?s') \<longleftrightarrow> d \<in> set (waitingUsers s)))" for d
    using cleanup_users_rel[of t "connectedUsers s" s d]
    by (simp add: cleanupEmptyRooms_def cleanupInactiveUsers_def)
  have 2: "queue_matches ?s'"
    unfolding queue_matches_def
  proof
    fix d
    from rel[of d] queue_matchesD[OF q, of d]
    show "d \<in> set (waitingUsers ?s') \<longleftrightarrow> (\<exists>b. map_of (connectedUsers ?s') d = Some b \<and> isWaiting (heap ?s' ! b))"
      unfolding h' by auto
  qed
  have 3: "inv_timers ?s'"
    unfolding inv_timers_def
  proof (intro allI impI)
    fix d b assume "(d, b) \<in> set (timers ?s')"
    then have mem: "(d, b) \<in> set (timers s)" by (simp add: t')
    note b = inv_timersD[OF it mem]
    with rel[of d] show "b < length (heap ?s') \<and> socketId (heap ?s' ! b) = d \<and>
        (isWaiting (heap ?s' ! b) \<longrightarrow> map_of (connectedUsers ?s') d = Some b \<or> map_of (connectedUsers ?s') d = None)"
      unfolding h' by auto
  qed
  from 2 3 show ?thesis by (simp add: inv_queue_def)
qed

lemma inv_queue_handle:
  assumes "inv_reg s" "inv_queue s" "register_ok s (e, Receive c m)"
  shows "inv_queue (fst (handle s c e m))"
proof (cases m)
  case (RegisterUser uid info)
  with assms show ?thesis by (simp add: inv_queue_register)
next
  case FindRandomPartner
  with assms show ?thesis by (simp add: inv_queue_find)
qed (use assms(1,2) in \<open>simp_all add: offer_def answer_def iceCandidate_def ping_def inv_queue_reject inv_queue_end\<close>)

lemma inv_queue_step:
  assumes ir: "inv_reg s" and i: "inv_queue s" and ok: "register_ok s x"
  shows "inv_queue (fst (step s x))"
proof (cases x)
  case (Pair e ev)
  show ?thesis
  proof (cases ev)
    case (Connect c)
    have "inv_queue (s\<lparr>sockets := sockets s @ [c]\<rparr>)" using ir i by (rule inv_queue_frame) simp_all
    with Pair Connect i show ?thesis by simp
  next
    case (Receive c m)
    with Pair assms show ?thesis by (simp add: inv_queue_handle)
  next
    case (Disconnect c)
    let ?s1 = "s\<lparr>sockets := removeAll c (sockets s), joined := filter (\<lambda>(c', n). c' \<noteq> c) (joined s)\<rparr>"
    show ?thesis
    proof (cases "c \<in> set (sockets s)")
      case True
      have i1: "inv_queue ?s1" using ir i by (rule inv_queue_frame) simp_all
      have "inv_queue (fst (disconnect s c))" using ir i by (rule inv_queue_disconnect)
      moreover have "waitingUsers (fst (disconnect ?s1 c)) = waitingUsers (fst (disconnect s c))"
        "connectedUsers (fst (disconnect ?s1 c)) = connectedUsers (fst (disconnect s c))"
        "heap (fst (disconnect ?s1 c)) = heap (fst (disconnect s c))"
        "timers (fst (disconnect ?s1 c)) = timers (fst (disconnect s c))"
        by (auto simp: disconnect_def Let_def clear_partner_def split: option.splits prod.splits if_splits)
      ultimately have "inv_queue (fst (disconnect ?s1 c))"
        by (simp add: inv_queue_def queue_matches_def inv_timers_def)
      with Pair Disconnect True show ?thesis by simp
    next
      case False
      with Pair Disconnect i show ?thesis by simp
    qed
  next
    case (TimerFires c a)
    with Pair ir i show ?thesis by (simp add: inv_queue_timeout)
  next
    case CleanupTick
    with Pair ir i show ?thesis by (simp add: inv_queue_cleanup)
  qed
qed

lemma inv_queue_exec:
  "inv_reg s \<Longrightarrow> inv_queue s \<Longrightarrow> registers_ok s xs \<Longrightarrow> inv_queue (exec s xs)"
  by (induction xs arbitrary: s) (simp_all add: inv_queue_step inv_reg_step)

lemma queue_matches_reachable:
  assumes "registers_ok (init_with p) xs"
  shows "queue_matches (exec (init_with p) xs)"
proof -
  have "inv_reg (init_with p)" "inv_queue (init_with p)"
    by (simp_all add: inv_reg_def inv_queue_def queue_matches_def inv_timers_def init_with_def)
  from inv_queue_exec[OF this assms] show ?thesis by (simp add: inv_queue_def)
qed

section \<open>The sockets in the room of a session\<close>

lemma inv_roomsD:
  assumes "inv_rooms s" "map_of (activeRooms s) k = Some r"
  obtains x y where "roomId r = k" "users r = [x, y]" "x < length (heap s)" "y < length (heap s)"
    "userId (heap s ! x) \<noteq> userId (heap s ! y)" "socketId (heap s ! x) \<noteq> socketId (heap s ! y)"
  using assms(1)[unfolded inv_rooms_def, rule_format, OF assms(2)] by blast

lemma inv_joinedD:
  assumes "inv_joined s" "(x, k) \<in> set (joined s)" "map_of (activeRooms s) k = Some r"
  shows "\<exists>a \<in> set (users r). socketId (heap s ! a) = x"
  using assms(1)[unfolded inv_joined_def, rule_format, OF assms(2,3)] .

lemma inv_joined_frame:
  assumes j: "inv_joined s" and ro: "inv_rooms s" and he: "heap_extends (heap s) (heap s')"
    and r: "\<And>k r. map_of (activeRooms s') k = Some r \<Longrightarrow> map_of (activeRooms s) k = Some r"
    and jn: "set (joined s') \<subseteq> set (joined s)"
  shows "inv_joined s'"
  unfolding inv_joined_def
proof (intro allI impI)
  fix x k r assume m: "(x, k) \<in> set (joined s')" and rm: "map_of (activeRooms s') k = Some r"
  from m jn have m0: "(x, k) \<in> set (joined s)" by auto
  from inv_joinedD[OF j m0 r[OF rm]] obtain a where a: "a \<in> set (users r)" "socketId (heap s ! a) = x"
    by blast
  from ro r[OF rm] obtain y z where "users r = [y, z]" "y < length (heap s)" "z < length (heap s)"
    by (rule inv_roomsD)
  with a(1) have "a < length (heap s)" by auto
  from heap_extends_nth[OF he this] a(2) have "socketId (heap s' ! a) = x" by simp
  with a(1) show "\<exists>a \<in> set (users r). socketId (heap s' ! a) = x" by (rule bexI[rotated])
qed

lemma inv_joined_match:
  assumes i: "inv s" and j: "inv_joined s" and m: "map_of (connectedUsers s) c = Some a"
    and f: "findPartner s (heap s ! a) = Some p"
    and fresh: "generateRoomId e \<notin> snd ` set (joined s)"
  shows "inv_joined (fst (matchUsers s c a p e))"
proof -
  let ?s' = "fst (matchUsers s c a p e)"
  let ?rid = "generateRoomId e"
  from findPartner_Some[OF f] obtain w where w: "w \<in> set (waitingUsers s)"
     "map_of (connectedUsers s) w = Some p" by blast
  note a = inv_regD[OF invD(1)[OF i] m]
  note p = inv_regD[OF invD(1)[OF i] w(2)]
  have jn: "set (joined ?s') = set (joined s) \<union> {(c, ?rid), (w, ?rid)}"
    using mu_joined[OF p(1), of c a e] p by auto
  show ?thesis
    unfolding inv_joined_def
  proof (intro allI impI)
    fix x k r assume mem: "(x, k) \<in> set (joined ?s')" and rm: "map_of (activeRooms ?s') k = Some r"
    show "\<exists>b \<in> set (users r). socketId (heap ?s' ! b) = x"
    proof (cases "k = ?rid")
      case True
      with rm have r: "r = Room ?rid a p (now e)" by (simp add: mu_rooms AList.update_conv')
      have "(x, ?rid) \<notin> set (joined s)"
      proof
        assume "(x, ?rid) \<in> set (joined s)"
        then have "snd (x, ?rid) \<in> snd ` set (joined s)" by (rule imageI)
        with fresh show False by simp
      qed
      with mem True have xc: "x = c \<or> x = w" unfolding jn by simp
      have "socketId (heap ?s' ! a) = c" "socketId (heap ?s' ! p) = w" using a p by (simp_all add: mu_nth)
      with xc show ?thesis unfolding r by (auto simp: Room_def)
    next
      case False
      with rm have rm0: "map_of (activeRooms s) k = Some r" by (simp add: mu_rooms AList.update_conv')
      from mem False have m0: "(x, k) \<in> set (joined s)" unfolding jn by auto
      from inv_joinedD[OF j m0 rm0] obtain b where b: "b \<in> set (users r)" "socketId (heap s ! b) = x"
        by blast
      from invD(3)[OF i] rm0 obtain y z where "users r = [y, z]" "y < length (heap s)" "z < length (heap s)"
        by (rule inv_roomsD)
      with b(1) have "b < length (heap s)" by auto
      with b(2) have "socketId (heap ?s' ! b) = x" by (simp add: mu_nth)
      with b(1) show ?thesis by (rule bexI[rotated])
    qed
  qed
qed

lemma inv_joined_find:
  assumes "inv s" "inv_joined s" "generateRoomId e \<notin> snd ` set (joined s)"
  shows "inv_joined (fst (findRandomPartner s c e))"
proof (cases "map_of (connectedUsers s) c")
  case None
  with assms(2) show ?thesis by (simp add: findRandomPartner_def)
next
  case (Some a)
  show ?thesis
  proof (cases "isWaiting (heap s ! a)")
    case True
    with Some assms(2) show ?thesis by (simp add: findRandomPartner_def)
  next
    case False
    show ?thesis
    proof (cases "findPartner s (heap s ! a)")
      case (Some p)
      from inv_joined_match[OF assms(1,2) \<open>map_of (connectedUsers s) c = Some a\<close> Some assms(3)]
      show ?thesis using Some False \<open>map_of (connectedUsers s) c = Some a\<close>
        by (simp add: findRandomPartner_def)
    next
      case None
      let ?s' = "s\<lparr>heap := (heap s)[a := (heap s ! a)\<lparr>isWaiting := True\<rparr>],
                       waitingUsers := set_add c (waitingUsers s),
                       timers := timers s @ [(c, a)]\<rparr>"
      have "inv_joined ?s'"
        using assms(2) invD(3)[OF assms(1)] by (rule inv_joined_frame) (simp_all add: heap_extends_update)
      with None False \<open>map_of (connectedUsers s) c = Some a\<close> show ?thesis
        by (simp add: findRandomPartner_def)
    qed
  qed
qed

lemma inv_joined_handle:
  assumes i: "inv s" and j: "inv_joined s" and ok: "join_ok s (e, Receive c m)"
  shows "inv_joined (fst (handle s c e m))"
proof (cases m)
  case (RegisterUser uid info)
  have "inv_joined (fst (registerUser s c uid info e))"
    using j invD(3)[OF i] he_register by (rule inv_joined_frame) (simp_all add: registerUser_def Let_def)
  with RegisterUser show ?thesis by simp
next
  case FindRandomPartner
  with assms show ?thesis by (simp add: inv_joined_find)
next
  case RejectCall
  have "inv_joined (fst (rejectCall s c))"
    using j invD(3)[OF i] he_reject
  proof (rule inv_joined_frame)
    fix k r assume "map_of (activeRooms (fst (rejectCall s c))) k = Some r"
    then show "map_of (activeRooms s) k = Some r" by (rule rooms_reject)
  qed simp
  with RejectCall show ?thesis by simp
next
  case EndCall
  have "inv_joined (fst (endCall s c))"
    using j invD(3)[OF i] he_end
  proof (rule inv_joined_frame)
    fix k r assume "map_of (activeRooms (fst (endCall s c))) k = Some r"
    then show "map_of (activeRooms s) k = Some r" by (rule rooms_end)
  qed simp
  with EndCall show ?thesis by simp
qed (use j in \<open>simp_all add: offer_def answer_def iceCandidate_def ping_def\<close>)

lemma inv_joined_step:
  assumes i: "inv s" and j: "inv_joined s" and ok: "join_ok s x"
  shows "inv_joined (fst (step s x))"
proof (cases x)
  case (Pair e ev)
  show ?thesis
  proof (cases ev)
    case (Connect c)
    have "inv_joined (s\<lparr>sockets := sockets s @ [c]\<rparr>)"
      using j invD(3)[OF i] by (rule inv_joined_frame) simp_all
    with Pair Connect j show ?thesis by simp
  next
    case (Receive c m)
    with Pair assms show ?thesis by (simp add: inv_joined_handle)
  next
    case (Disconnect c)
    let ?s1 = "s\<lparr>sockets := removeAll c (sockets s), joined := filter (\<lambda>(c', n). c' \<noteq> c) (joined s)\<rparr>"
    have "inv_joined (fst (disconnect ?s1 c))"
      using j invD(3)[OF i]
    proof (rule inv_joined_frame)
      show "heap_extends (heap s) (heap (fst (disconnect ?s1 c)))" using he_disconnect[of ?s1 c] by simp
      fix k r assume "map_of (activeRooms (fst (disconnect ?s1 c))) k = Some r"
      from rooms_disconnect[OF this] show "map_of (activeRooms s) k = Some r" by simp
    qed auto
    with Pair Disconnect j show ?thesis by simp
  next
    case (TimerFires c a)
    let ?s1 = "s\<lparr>timers := remove1 (c, a) (timers s)\<rparr>"
    have "inv_joined (fst (searchTimeout ?s1 c a))"
      using j invD(3)[OF i]
    proof (rule inv_joined_frame)
      show "heap_extends (heap s) (heap (fst (searchTimeout ?s1 c a)))" using he_timeout[of ?s1 c a] by simp
    qed simp_all
    with Pair TimerFires j show ?thesis by simp
  next
    case CleanupTick
    have "inv_joined (cleanupEmptyRooms (cleanupInactiveUsers (now e) s))"
      using j invD(3)[OF i]
    proof (rule inv_joined_frame)
      fix k r assume "map_of (activeRooms (cleanupEmptyRooms (cleanupInactiveUsers (now e) s))) k = Some r"
      then have "map_of (activeRooms (cleanupInactiveUsers (now e) s)) k = Some r"
        unfolding cleanupEmptyRooms_def by (rule rooms_cleanup_rooms)
      then show "map_of (activeRooms s) k = Some r" by (simp add: cleanupInactiveUsers_def)
    qed (simp_all add: cleanupEmptyRooms_def cleanupInactiveUsers_def heap_cleanup_users heap_cleanup_rooms)
    with Pair CleanupTick show ?thesis by simp
  qed
qed

lemma inv_joined_exec:
  "inv s \<Longrightarrow> inv_joined s \<Longrightarrow> run_ok s xs \<Longrightarrow> rooms_unique s xs \<Longrightarrow> inv_joined (exec s xs)"
  by (induction xs arbitrary: s) (simp_all add: inv_step inv_joined_step)

lemma inv_joined_init: "inv_joined (init_with p)"
  by (simp add: inv_joined_def init_with_def)

lemma deliver_single_set: "set (deliver s [(t, m)]) = (\<lambda>c. (c, m)) ` set (recipients s t)"
  by (auto simp: deliver_def)

section \<open>What the sweep removes\<close>










section \<open>The claims\<close>

subsection \<open>C1: the notifications of a match\<close>

text \<open>
  C1, as stated, has \<open>A\<close> (who searched first) receive \<^verbatim>\<open>partner-found\<close> and \<open>B\<close> receive
  \<^verbatim>\<open>incoming-call\<close>. The handler of \<^verbatim>\<open>find-random-partner\<close> emits \<^verbatim>\<open>partner-found\<close>
  on its own socket, that of the participant whose search found the partner, and
  \<^verbatim>\<open>incoming-call\<close> to the partner taken from the queue. In the scenario the roles are the
  other way round: \<open>B\<close> receives \<^verbatim>\<open>partner-found\<close> naming \<open>A\<close>, and \<open>A\<close> receives
  \<^verbatim>\<open>incoming-call\<close> naming \<open>B\<close>.
\<close>

theorem C1_roles_counterexample:
  "delivered (exec init scenario_waiting) (env0, Receive ''sB'' FindRandomPartner) =
     [(''sB'', PartnerFound ''room_abc_1000'' ''A'' [] []),
      (''sA'', IncomingCall ''room_abc_1000'' ''B'' [] [])] \<and>
   (''sA'', PartnerFound ''room_abc_1000'' ''B'' [] []) \<notin>
     set (delivered (exec init scenario_waiting) (env0, Receive ''sB'' FindRandomPartner))"
  by code_simp

text \<open>
  C1 (amended): two connections \<open>cA\<close>, \<open>cB\<close> register the distinct users \<open>uA\<close>, \<open>uB\<close> without
  profile under the default configuration; \<open>cA\<close> searches, then \<open>cB\<close> searches. The second
  search delivers exactly two messages: \<^verbatim>\<open>partner-found\<close> naming \<open>uA\<close> to \<open>cB\<close>, and
  \<^verbatim>\<open>incoming-call\<close> naming \<open>uB\<close> to \<open>cA\<close>, both with the same room id.
\<close>

theorem C1_match_notifications:
  assumes "cA \<noteq> cB" "uA \<noteq> uB" "\<not> is_room_name cA" "\<not> is_room_name cB"
  shows "delivered
           (exec init [(e1, Connect cA), (e2, Connect cB),
                       (e3, Receive cA (RegisterUser uA no_profile)),
                       (e4, Receive cB (RegisterUser uB no_profile)),
                       (e5, Receive cA FindRandomPartner)])
           (e6, Receive cB FindRandomPartner) =
         [(cB, PartnerFound (generateRoomId e6) uA [] []),
          (cA, IncomingCall (generateRoomId e6) uB [] [])]"
proof -
  have "is_room_name (generateRoomId e6)" by simp
  with assms(3,4) have "cA \<noteq> generateRoomId e6" "cB \<noteq> generateRoomId e6" by auto
  with assms(1,2) show ?thesis
    by (simp add: no_profile_def init_def init_with_def default_prefs_def delivered_def deliver_def
        recipients_def registerUser_def findRandomPartner_def matchUsers_def findPartner_def User_def
        Room_def areUsersCompatible_def set_add_def set_delete_def socket_join_def or_empty_def Let_def)
qed

text \<open>The amended C1 at the scenario's own names.\<close>

theorem C1_match_notifications_witness:
  "''sA'' \<noteq> ''sB'' \<and> ''A'' \<noteq> ''B'' \<and> \<not> is_room_name ''sA'' \<and> \<not> is_room_name ''sB'' \<and>
   delivered
     (exec init [(env0, Connect ''sA''), (env0, Connect ''sB''),
                 (env0, Receive ''sA'' (RegisterUser ''A'' no_profile)),
                 (env0, Receive ''sB'' (RegisterUser ''B'' no_profile)),
                 (env0, Receive ''sA'' FindRandomPartner)])
     (env0, Receive ''sB'' FindRandomPartner) =
   [(''sB'', PartnerFound (generateRoomId env0) ''A'' [] []),
    (''sA'', IncomingCall (generateRoomId env0) ''B'' [] [])]"
proof -
  have h: "''sA'' \<noteq> ''sB''" "''A'' \<noteq> ''B''" "\<not> is_room_name ''sA''" "\<not> is_room_name ''sB''"
    by (simp_all add: is_room_name_def)
  from C1_match_notifications[OF h] h show ?thesis by simp
qed

subsection \<open>C2: the compatibility rule\<close>

text \<open>
  C2: \<^verbatim>\<open>areUsersCompatible\<close> is false for equal user ids; otherwise it holds exactly when
  every option that is switched on finds the two profile fields equal. The constructor
  turns an absent field and an empty one into the same empty string, so two unspecified
  values match. In particular, with \<^verbatim>\<open>sameUniversity\<close> on, different universities are
  never compatible.
\<close>

theorem C2_areUsersCompatible:
  "(areUsersCompatible p a b \<longleftrightarrow>
      userId a \<noteq> userId b \<and>
      (sameUniversity p \<longrightarrow> university a = university b) \<and>
      (sameGender p \<longrightarrow> gender a = gender b)) \<and>
   (areUsersCompatible p (User ca ua ia ta) (User cb ub ib tb) \<longleftrightarrow>
      ua \<noteq> ub \<and>
      (sameUniversity p \<longrightarrow> or_empty (info_university ia) = or_empty (info_university ib)) \<and>
      (sameGender p \<longrightarrow> or_empty (info_gender ia) = or_empty (info_gender ib))) \<and>
   or_empty None = or_empty (Some []) \<and>
   (sameUniversity p \<and> university a \<noteq> university b \<longrightarrow> \<not> areUsersCompatible p a b)"
  by (auto simp: areUsersCompatible_def User_def or_empty_def)

text \<open>C2 at two pairs: an absent and an empty university match under both options; two
  different universities do not match under \<^verbatim>\<open>sameUniversity\<close>.\<close>

theorem C2_areUsersCompatible_witness:
  "areUsersCompatible \<lparr>sameUniversity = True, sameGender = True, maxWaitTime = 30000\<rparr>
     (User ''sA'' ''A'' \<lparr>info_university = None, info_gender = Some ''f'', info_year = None\<rparr> 0)
     (User ''sB'' ''B'' \<lparr>info_university = Some [], info_gender = Some ''f'', info_year = Some ''2''\<rparr> 5) \<and>
   \<not> areUsersCompatible \<lparr>sameUniversity = True, sameGender = False, maxWaitTime = 30000\<rparr>
     (User ''sA'' ''A'' \<lparr>info_university = Some ''X'', info_gender = None, info_year = None\<rparr> 0)
     (User ''sB'' ''B'' \<lparr>info_university = Some ''Y'', info_gender = None, info_year = None\<rparr> 0)"
  using C2_areUsersCompatible
     [of "\<lparr>sameUniversity = True, sameGender = True, maxWaitTime = 30000\<rparr>"
         "User ''sA'' ''A'' \<lparr>info_university = None, info_gender = Some ''f'', info_year = None\<rparr> 0"
         "User ''sB'' ''B'' \<lparr>info_university = Some [], info_gender = Some ''f'', info_year = Some ''2''\<rparr> 5"]
    C2_areUsersCompatible
     [of "\<lparr>sameUniversity = True, sameGender = False, maxWaitTime = 30000\<rparr>"
         "User ''sA'' ''A'' \<lparr>info_university = Some ''X'', info_gender = None, info_year = None\<rparr> 0"
         "User ''sB'' ''B'' \<lparr>info_university = Some ''Y'', info_gender = None, info_year = None\<rparr> 0"]
  by (simp add: User_def or_empty_def)

subsection \<open>C3: the queue and the searching flag\<close>

text \<open>
  C3 says that a connection is in the queue exactly when its participant is searching,
  after every operation, re-registration included. Every handler that touches the queue
  keeps \<^verbatim>\<open>waitingUsers\<close> and \<^verbatim>\<open>isWaiting\<close> in step (\<open>queue_matches_reachable\<close> above:
  the equivalence holds after every run whose registrations arrive with no search under
  way), except \<^verbatim>\<open>register-user\<close>, which replaces the registry's object by a fresh one
  (\<^verbatim>\<open>isWaiting = false\<close>) and leaves the queue and the pending timeout alone. After
  register, search, register on one connection the queue still holds the connection
  while its participant is not searching; and when the connection then searches again
  and the timeout of the first search fires, the participant is searching while the
  queue no longer holds the connection.
\<close>

theorem C3_reregister_dangling:
  "''sA'' \<in> set (waitingUsers (exec init
       [(env0, Connect ''sA''), (env0, Receive ''sA'' (RegisterUser ''A'' no_profile)),
        (env0, Receive ''sA'' FindRandomPartner),
        (env0, Receive ''sA'' (RegisterUser ''A'' no_profile))])) \<and>
   map_option isWaiting (lookup (exec init
       [(env0, Connect ''sA''), (env0, Receive ''sA'' (RegisterUser ''A'' no_profile)),
        (env0, Receive ''sA'' FindRandomPartner),
        (env0, Receive ''sA'' (RegisterUser ''A'' no_profile))]) ''sA'') = Some False \<and>
   ''sA'' \<notin> set (waitingUsers (exec init
       [(env0, Connect ''sA''), (env0, Receive ''sA'' (RegisterUser ''A'' no_profile)),
        (env0, Receive ''sA'' FindRandomPartner),
        (env0, Receive ''sA'' (RegisterUser ''A'' no_profile)),
        (env0, Receive ''sA'' FindRandomPartner),
        (env0, TimerFires ''sA'' 0)])) \<and>
   map_option isWaiting (lookup (exec init
       [(env0, Connect ''sA''), (env0, Receive ''sA'' (RegisterUser ''A'' no_profile)),
        (env0, Receive ''sA'' FindRandomPartner),
        (env0, Receive ''sA'' (RegisterUser ''A'' no_profile)),
        (env0, Receive ''sA'' FindRandomPartner),
        (env0, TimerFires ''sA'' 0)]) ''sA'') = Some True"
  by code_simp

subsection \<open>C4: registering again while in a session\<close>

text \<open>
  C4 says that a participant in a session who sends \<^verbatim>\<open>register-user\<close> again on the same
  connection keeps its session identifier and its partner. The handler stores a new
  \<^verbatim>\<open>User\<close>, whose constructor sets \<^verbatim>\<open>currentRoom\<close> and \<^verbatim>\<open>partnerId\<close> to \<^verbatim>\<open>null\<close>, and
  looks at nothing else: after the match \<open>A\<close> is bound to the room and to \<open>B\<close>; after
  registering again the participant of \<open>A\<close>'s connection has neither, while the room is
  still in the store and \<open>B\<close> is still bound to it and to \<open>A\<close>. Where a participant leaves
  the registry otherwise, its session is looked after: \<^verbatim>\<open>disconnect\<close> closes it and
  the sweep spares a participant with a room. This is the slip of C3, in the same
  handler.
\<close>

theorem C4_reregister_drops_binding:
  "map_option currentRoom (lookup (exec init scenario_matched) ''sA'') = Some (Some ''room_abc_1000'') \<and>
   map_option partnerId (lookup (exec init scenario_matched) ''sA'') = Some (Some ''B'') \<and>
   map_option currentRoom (lookup (exec init
      (scenario_matched @ [(env0, Receive ''sA'' (RegisterUser ''A'' no_profile))])) ''sA'') = Some None \<and>
   map_option partnerId (lookup (exec init
      (scenario_matched @ [(env0, Receive ''sA'' (RegisterUser ''A'' no_profile))])) ''sA'') = Some None \<and>
   map (roomId \<circ> snd) (activeRooms (exec init
      (scenario_matched @ [(env0, Receive ''sA'' (RegisterUser ''A'' no_profile))]))) = [''room_abc_1000''] \<and>
   map_option currentRoom (lookup (exec init
      (scenario_matched @ [(env0, Receive ''sA'' (RegisterUser ''A'' no_profile))])) ''sB'') =
     Some (Some ''room_abc_1000'') \<and>
   map_option partnerId (lookup (exec init
      (scenario_matched @ [(env0, Receive ''sA'' (RegisterUser ''A'' no_profile))])) ''sB'') = Some (Some ''A'')"
  by code_simp

subsection \<open>C5: control signals without a session\<close>

text \<open>
  C5, as stated, has both \<^verbatim>\<open>accept-call\<close> and \<^verbatim>\<open>reject-call\<close> answered by an error
  notice when the sender holds no session. The \<^verbatim>\<open>reject-call\<close> handler returns without
  emitting, as the relays do: a registered connection without a session that sends
  \<^verbatim>\<open>reject-call\<close> gets nothing, and the state is unchanged.
\<close>

theorem C5_reject_silent_counterexample:
  "activeSession (exec init scenario_registered) ''sA'' = None \<and>
   ''sA'' \<in> set (sockets (exec init scenario_registered)) \<and>
   step (exec init scenario_registered) (env0, Receive ''sA'' RejectCall) =
     (exec init scenario_registered, [])"
  by code_simp

text \<open>
  C5 (amended): for a live connection that holds no active session, \<^verbatim>\<open>accept-call\<close> is
  answered by exactly one \<^verbatim>\<open>error\<close> message, delivered to the sender, and changes nothing;
  \<^verbatim>\<open>reject-call\<close>, \<^verbatim>\<open>offer\<close>, \<^verbatim>\<open>answer\<close>, \<^verbatim>\<open>ice-candidate\<close> and \<^verbatim>\<open>end-call\<close> are
  dropped: no message, no change.
\<close>

theorem C5_no_session_feedback:
  assumes "c \<in> set (sockets s)" "activeSession s c = None"
  shows "(\<exists>m. step s (e, Receive c AcceptCall) = (s, [(ToSocket c, ErrorMsg m)]) \<and>
              delivered s (e, Receive c AcceptCall) = [(c, ErrorMsg m)]) \<and>
         step s (e, Receive c RejectCall) = (s, []) \<and>
         step s (e, Receive c (OfferMsg sdp ty)) = (s, []) \<and>
         step s (e, Receive c (AnswerMsg sdp ty)) = (s, []) \<and>
         step s (e, Receive c (IceCandidateMsg cand)) = (s, []) \<and>
         step s (e, Receive c EndCall) = (s, [])"
proof -
  have a: "\<exists>m. acceptCall s c = (s, [(ToSocket c, ErrorMsg m)])"
    using assms(2) by (auto simp: activeSession_def acceptCall_def split: option.splits if_splits)
  have r: "rejectCall s c = (s, [])"
    using assms(2) by (auto simp: activeSession_def rejectCall_def split: option.splits if_splits)
  have l: "relay s c mk = (s, [])" for mk
    using assms(2) by (auto simp: activeSession_def relay_def split: option.splits if_splits)
  have d: "endCall s c = (s, [])"
    using assms(2) by (auto simp: activeSession_def endCall_def split: option.splits if_splits)
  from a obtain m where m: "acceptCall s c = (s, [(ToSocket c, ErrorMsg m)])" by blast
  with assms(1) have "step s (e, Receive c AcceptCall) = (s, [(ToSocket c, ErrorMsg m)]) \<and>
              delivered s (e, Receive c AcceptCall) = [(c, ErrorMsg m)]"
    by (simp add: delivered_def deliver_def recipients_def)
  with r l d assms(1) show ?thesis
    by (auto simp: offer_def answer_def iceCandidate_def)
qed

text \<open>The amended C5 for a registered connection that has not been matched.\<close>

theorem C5_no_session_feedback_witness:
  "(\<exists>m. step (exec init scenario_registered) (env0, Receive ''sA'' AcceptCall) =
           (exec init scenario_registered, [(ToSocket ''sA'', ErrorMsg m)]) \<and>
        delivered (exec init scenario_registered) (env0, Receive ''sA'' AcceptCall) = [(''sA'', ErrorMsg m)]) \<and>
   step (exec init scenario_registered) (env0, Receive ''sA'' (OfferMsg (JStr ''v=0'') (JStr ''offer''))) =
     (exec init scenario_registered, [])"
proof -
  have 1: "''sA'' \<in> set (sockets (exec init scenario_registered))" by code_simp
  have 2: "activeSession (exec init scenario_registered) ''sA'' = None" by code_simp
  from C5_no_session_feedback[OF 1 2] show ?thesis by blast
qed

subsection \<open>C6: where the relay sends\<close>

text \<open>
  C6, as stated, has every relayed message go to the other participant only, never back
  to the sender. \<^verbatim>\<open>accept-call\<close> is emitted with \<^verbatim>\<open>io.to(room.roomId)\<close>, to the socket.io
  room that both sockets joined at the match: after the match, \<open>A\<close>'s \<^verbatim>\<open>accept-call\<close> is
  delivered to \<open>A\<close> as well as to \<open>B\<close>.
\<close>

theorem C6_accept_broadcast_counterexample:
  "delivered (exec init scenario_matched) (env0, Receive ''sA'' AcceptCall) =
     [(''sB'', CallAccepted ''room_abc_1000'' ''A''), (''sA'', CallAccepted ''room_abc_1000'' ''A'')]"
  by code_simp

text \<open>
  C6 (amended): in every state reached by a run in which connection ids are not room names
  and a generated room id is neither referred to by a participant nor the name of a room a
  socket is still in, a connection \<open>c\<close> that holds an active session \<open>r\<close> is one of its two
  members, and the other member \<open>p\<close> sits on another connection. For \<^verbatim>\<open>offer\<close>,
  \<^verbatim>\<open>answer\<close>, \<^verbatim>\<open>ice-candidate\<close>, \<^verbatim>\<open>reject-call\<close> and \<^verbatim>\<open>end-call\<close> the server emits
  exactly one message, with the payload as received and the sender's user id, addressed to
  the connection of \<open>p\<close>: it is delivered to that connection if it is live, and to nobody
  otherwise; in no case to the sender or to a third connection. \<^verbatim>\<open>accept-call\<close> is emitted
  once, with the sender's user id, to the socket.io room of the session: it is delivered to
  the sender, to the connection of \<open>p\<close> exactly when that connection is live and in the
  room, and to nobody else.
\<close>

theorem C6_relay_targets:
  assumes "run_ok (init_with pr) xs" "rooms_unique (init_with pr) xs" "s = exec (init_with pr) xs"
    and "activeSession s c = Some r" "map_of (connectedUsers s) c = Some a"
  shows "\<exists>p. set (users r) = {a, p} \<and> a \<noteq> p \<and> socketId (heap s ! p) \<noteq> c \<and>
           step s (e, Receive c (OfferMsg sdp ty)) =
             (s, [(ToRoom (socketId (heap s ! p)), Offer sdp ty (userId (heap s ! a)))]) \<and>
           step s (e, Receive c (AnswerMsg sdp ty)) =
             (s, [(ToRoom (socketId (heap s ! p)), Answer sdp ty (userId (heap s ! a)))]) \<and>
           step s (e, Receive c (IceCandidateMsg cand)) =
             (s, [(ToRoom (socketId (heap s ! p)), IceCandidate cand (userId (heap s ! a)))]) \<and>
           snd (step s (e, Receive c RejectCall)) =
             [(ToRoom (socketId (heap s ! p)), CallRejected (userId (heap s ! a)))] \<and>
           snd (step s (e, Receive c EndCall)) =
             [(ToRoom (socketId (heap s ! p)), UserLeft (userId (heap s ! a)))] \<and>
           set (delivered s (e, Receive c (OfferMsg sdp ty))) =
             (if socketId (heap s ! p) \<in> set (sockets s)
              then {(socketId (heap s ! p), Offer sdp ty (userId (heap s ! a)))} else {}) \<and>
           set (delivered s (e, Receive c (AnswerMsg sdp ty))) =
             (if socketId (heap s ! p) \<in> set (sockets s)
              then {(socketId (heap s ! p), Answer sdp ty (userId (heap s ! a)))} else {}) \<and>
           set (delivered s (e, Receive c (IceCandidateMsg cand))) =
             (if socketId (heap s ! p) \<in> set (sockets s)
              then {(socketId (heap s ! p), IceCandidate cand (userId (heap s ! a)))} else {}) \<and>
           set (delivered s (e, Receive c RejectCall)) =
             (if socketId (heap s ! p) \<in> set (sockets s)
              then {(socketId (heap s ! p), CallRejected (userId (heap s ! a)))} else {}) \<and>
           set (delivered s (e, Receive c EndCall)) =
             (if socketId (heap s ! p) \<in> set (sockets s)
              then {(socketId (heap s ! p), UserLeft (userId (heap s ! a)))} else {}) \<and>
           step s (e, Receive c AcceptCall) =
             (s, [(ToRoom (roomId r), CallAccepted (roomId r) (userId (heap s ! a)))]) \<and>
           (c, CallAccepted (roomId r) (userId (heap s ! a))) \<in> set (delivered s (e, Receive c AcceptCall)) \<and>
           set (delivered s (e, Receive c AcceptCall)) \<subseteq>
             {(c, CallAccepted (roomId r) (userId (heap s ! a))),
              (socketId (heap s ! p), CallAccepted (roomId r) (userId (heap s ! a)))} \<and>
           ((socketId (heap s ! p), CallAccepted (roomId r) (userId (heap s ! a)))
               \<in> set (delivered s (e, Receive c AcceptCall)) \<longleftrightarrow>
            socketId (heap s ! p) \<in> set (sockets s) \<and> (socketId (heap s ! p), roomId r) \<in> set (joined s))"
proof -
  have i: "inv s" unfolding assms(3) using inv_init assms(1) by (rule inv_exec)
  have j: "inv_joined s" unfolding assms(3) using inv_init inv_joined_init assms(1,2) by (rule inv_joined_exec)
  from session_members[OF i assms(4,5)] obtain p where p: "set (users r) = {a, p}" "a \<noteq> p"
    "p < length (heap s)" "getOtherUser (heap s) r (userId (heap s ! a)) = Some p"
    "socketId (heap s ! p) \<noteq> c" "c \<in> set (sockets s)" "(c, roomId r) \<in> set (joined s)"
    by blast
  let ?peer = "socketId (heap s ! p)"
  let ?me = "userId (heap s ! a)"
  note rel = relay_session[OF assms(4,5) p(4)]
  note rej = rejectCall_session[OF assms(4,5) p(4)]
  note fin = endCall_session[OF assms(4,5) p(4)]
  note acc = acceptCall_session[OF assms(4,5) p(4)]
  note ca = inv_regD[OF invD(1)[OF i] assms(5)]
  have "heap s ! p \<in> set (heap s)" using p(3) by simp
  with invD(2)[OF i] have pn: "\<not> is_room_name ?peer" by (simp add: inv_names_def)
  with invD(2)[OF i] have nj: "(x, ?peer) \<notin> set (joined s)" for x by (auto simp: inv_names_def)
  then have rc: "set (recipients s (ToRoom ?peer)) = (if ?peer \<in> set (sockets s) then {?peer} else {})"
    by (auto simp: set_recipients_room)
  have rc': "set (recipients s' (ToRoom ?peer)) = (if ?peer \<in> set (sockets s) then {?peer} else {})"
    if "sockets s' = sockets s" "joined s' = joined s" for s'
    using nj that by (auto simp: set_recipients_room)
  have d1: "set (delivered s (e, Receive c (OfferMsg sdp ty))) =
             (if ?peer \<in> set (sockets s) then {(?peer, Offer sdp ty ?me)} else {})"
    using p(6) by (simp add: delivered_alt offer_def rel deliver_single_set rc)
  have d2: "set (delivered s (e, Receive c (AnswerMsg sdp ty))) =
             (if ?peer \<in> set (sockets s) then {(?peer, Answer sdp ty ?me)} else {})"
    using p(6) by (simp add: delivered_alt answer_def rel deliver_single_set rc)
  have d3: "set (delivered s (e, Receive c (IceCandidateMsg cand))) =
             (if ?peer \<in> set (sockets s) then {(?peer, IceCandidate cand ?me)} else {})"
    using p(6) by (simp add: delivered_alt iceCandidate_def rel deliver_single_set rc)
  have d4: "set (delivered s (e, Receive c RejectCall)) =
             (if ?peer \<in> set (sockets s) then {(?peer, CallRejected ?me)} else {})"
    using p(6) by (simp add: delivered_alt rej deliver_single_set rc')
  have d5: "set (delivered s (e, Receive c EndCall)) =
             (if ?peer \<in> set (sockets s) then {(?peer, UserLeft ?me)} else {})"
    using p(6) by (simp add: delivered_alt fin deliver_single_set rc')
  have da: "set (delivered s (e, Receive c AcceptCall)) =
             (\<lambda>x. (x, CallAccepted (roomId r) ?me)) ` {x \<in> set (sockets s). x = roomId r \<or> (x, roomId r) \<in> set (joined s)}"
    using p(6) by (simp add: delivered_alt acc deliver_single_set set_recipients_room)
  from p(7) invD(2)[OF i] have rn: "is_room_name (roomId r)" by (auto simp: inv_names_def)
  from assms(4,5) have "map_of (activeRooms s) (the (currentRoom (heap s ! a))) = Some r"
    by (auto simp: activeSession_def split: if_splits)
  moreover from invD(3)[OF i] this obtain y z where "roomId r = the (currentRoom (heap s ! a))"
    by (rule inv_roomsD)
  ultimately have rm: "map_of (activeRooms s) (roomId r) = Some r" by simp
  have mem: "x = c \<or> x = ?peer" if "(x, roomId r) \<in> set (joined s)" for x
  proof -
    from inv_joinedD[OF j that rm] obtain b where "b \<in> set (users r)" "socketId (heap s ! b) = x" by blast
    with p(1) ca(2) show ?thesis by auto
  qed
  have ns: "x \<noteq> roomId r" if "x \<in> set (sockets s)" for x
    using that rn invD(2)[OF i] by (auto simp: inv_names_def)
  have a1: "(c, CallAccepted (roomId r) ?me) \<in> set (delivered s (e, Receive c AcceptCall))"
    unfolding da using p(6,7) by auto
  have a2: "set (delivered s (e, Receive c AcceptCall)) \<subseteq>
             {(c, CallAccepted (roomId r) ?me), (?peer, CallAccepted (roomId r) ?me)}"
    unfolding da using mem ns by auto
  have a3: "(?peer, CallAccepted (roomId r) ?me) \<in> set (delivered s (e, Receive c AcceptCall)) \<longleftrightarrow>
            ?peer \<in> set (sockets s) \<and> (?peer, roomId r) \<in> set (joined s)"
    unfolding da using ns by auto
  show ?thesis
    apply (rule exI[of _ p])
    using p(1,2,5,6) d1 d2 d3 d4 d5 a1 a2 a3
    by (simp add: offer_def answer_def iceCandidate_def rel rej fin acc)
qed

text \<open>The amended C6 in two states. After the match of the scenario \<open>A\<close>'s offer reaches
  \<open>B\<close> and nobody else, and \<open>A\<close>'s \<^verbatim>\<open>accept-call\<close> reaches both \<open>A\<close> and \<open>B\<close>. Once \<open>B\<close> has
  registered again and disconnected, \<open>A\<close> still holds the session: \<open>A\<close>'s offer reaches
  nobody, and \<open>A\<close>'s \<^verbatim>\<open>accept-call\<close> reaches \<open>A\<close> alone.\<close>

theorem C6_relay_targets_witness:
  "step (exec init scenario_matched) (env0, Receive ''sA'' (OfferMsg (JStr ''v=0'') (JStr ''offer''))) =
     (exec init scenario_matched, [(ToRoom ''sB'', Offer (JStr ''v=0'') (JStr ''offer'') ''A'')]) \<and>
   set (delivered (exec init scenario_matched) (env0, Receive ''sA'' (OfferMsg (JStr ''v=0'') (JStr ''offer'')))) =
     {(''sB'', Offer (JStr ''v=0'') (JStr ''offer'') ''A'')} \<and>
   (''sA'', CallAccepted ''room_abc_1000'' ''A'') \<in>
      set (delivered (exec init scenario_matched) (env0, Receive ''sA'' AcceptCall)) \<and>
   (''sB'', CallAccepted ''room_abc_1000'' ''A'') \<in>
      set (delivered (exec init scenario_matched) (env0, Receive ''sA'' AcceptCall)) \<and>
   set (delivered (exec init (scenario_matched @
          [(env0, Receive ''sB'' (RegisterUser ''B'' no_profile)), (env0, Disconnect ''sB'')]))
        (env0, Receive ''sA'' (OfferMsg (JStr ''v=0'') (JStr ''offer'')))) = {} \<and>
   set (delivered (exec init (scenario_matched @
          [(env0, Receive ''sB'' (RegisterUser ''B'' no_profile)), (env0, Disconnect ''sB'')]))
        (env0, Receive ''sA'' AcceptCall)) = {(''sA'', CallAccepted ''room_abc_1000'' ''A'')}"
proof -
  define s where "s = exec init scenario_matched"
  have 1: "run_ok (init_with default_prefs) scenario_matched" by code_simp
  have 7: "rooms_unique (init_with default_prefs) scenario_matched" by code_simp
  have 2: "s = exec (init_with default_prefs) scenario_matched" by (simp add: s_def init_def)
  have 3: "activeSession s ''sA'' = Some (Room ''room_abc_1000'' 1 0 1000)" unfolding s_def by code_simp
  have 4: "map_of (connectedUsers s) ''sA'' = Some 0" unfolding s_def by code_simp
  have 5: "socketId (heap s ! 1) = ''sB''" "userId (heap s ! 0) = ''A''" unfolding s_def by code_simp+
  have 6: "''sB'' \<in> set (sockets s)" "(''sB'', ''room_abc_1000'') \<in> set (joined s)"
    unfolding s_def by code_simp+
  from C6_relay_targets[OF 1 7 2 3 4, of env0 "JStr ''v=0''" "JStr ''offer''"]
  obtain p where p: "set (users (Room ''room_abc_1000'' 1 0 1000)) = {0, p}"
    "step s (env0, Receive ''sA'' (OfferMsg (JStr ''v=0'') (JStr ''offer''))) =
             (s, [(ToRoom (socketId (heap s ! p)), Offer (JStr ''v=0'') (JStr ''offer'') (userId (heap s ! 0)))])"
    "set (delivered s (env0, Receive ''sA'' (OfferMsg (JStr ''v=0'') (JStr ''offer'')))) =
             (if socketId (heap s ! p) \<in> set (sockets s)
              then {(socketId (heap s ! p), Offer (JStr ''v=0'') (JStr ''offer'') (userId (heap s ! 0)))} else {})"
    "(''sA'', CallAccepted (roomId (Room ''room_abc_1000'' 1 0 1000)) (userId (heap s ! 0)))
        \<in> set (delivered s (env0, Receive ''sA'' AcceptCall))"
    "((socketId (heap s ! p), CallAccepted (roomId (Room ''room_abc_1000'' 1 0 1000)) (userId (heap s ! 0)))
               \<in> set (delivered s (env0, Receive ''sA'' AcceptCall)) \<longleftrightarrow>
            socketId (heap s ! p) \<in> set (sockets s) \<and>
            (socketId (heap s ! p), roomId (Room ''room_abc_1000'' 1 0 1000)) \<in> set (joined s))"
    by blast
  from p(1) have "p = 1" by (auto simp: Room_def doubleton_eq_iff)
  with p(2,3,4,5) 5 6 have A:
   "step s (env0, Receive ''sA'' (OfferMsg (JStr ''v=0'') (JStr ''offer''))) =
     (s, [(ToRoom ''sB'', Offer (JStr ''v=0'') (JStr ''offer'') ''A'')]) \<and>
   set (delivered s (env0, Receive ''sA'' (OfferMsg (JStr ''v=0'') (JStr ''offer'')))) =
     {(''sB'', Offer (JStr ''v=0'') (JStr ''offer'') ''A'')} \<and>
   (''sA'', CallAccepted ''room_abc_1000'' ''A'') \<in> set (delivered s (env0, Receive ''sA'' AcceptCall)) \<and>
   (''sB'', CallAccepted ''room_abc_1000'' ''A'') \<in> set (delivered s (env0, Receive ''sA'' AcceptCall))"
    by (simp add: Room_def)
  define xs where "xs = scenario_matched @
          [(env0, Receive ''sB'' (RegisterUser ''B'' no_profile)), (env0, Disconnect ''sB'')]"
  define t where "t = exec init xs"
  have t1: "run_ok (init_with default_prefs) xs" unfolding xs_def by code_simp
  have t7: "rooms_unique (init_with default_prefs) xs" unfolding xs_def by code_simp
  have t2: "t = exec (init_with default_prefs) xs" by (simp add: t_def init_def)
  have t3: "activeSession t ''sA'' = Some (Room ''room_abc_1000'' 1 0 1000)" unfolding t_def xs_def by code_simp
  have t4: "map_of (connectedUsers t) ''sA'' = Some 0" unfolding t_def xs_def by code_simp
  have t5: "socketId (heap t ! 1) = ''sB''" "userId (heap t ! 0) = ''A''" unfolding t_def xs_def by code_simp+
  have t6: "''sB'' \<notin> set (sockets t)" unfolding t_def xs_def by code_simp
  from C6_relay_targets[OF t1 t7 t2 t3 t4, of env0 "JStr ''v=0''" "JStr ''offer''"]
  obtain q where q: "set (users (Room ''room_abc_1000'' 1 0 1000)) = {0, q}"
    "set (delivered t (env0, Receive ''sA'' (OfferMsg (JStr ''v=0'') (JStr ''offer'')))) =
             (if socketId (heap t ! q) \<in> set (sockets t)
              then {(socketId (heap t ! q), Offer (JStr ''v=0'') (JStr ''offer'') (userId (heap t ! 0)))} else {})"
    "(''sA'', CallAccepted (roomId (Room ''room_abc_1000'' 1 0 1000)) (userId (heap t ! 0)))
        \<in> set (delivered t (env0, Receive ''sA'' AcceptCall))"
    "set (delivered t (env0, Receive ''sA'' AcceptCall)) \<subseteq>
             {(''sA'', CallAccepted (roomId (Room ''room_abc_1000'' 1 0 1000)) (userId (heap t ! 0))),
              (socketId (heap t ! q), CallAccepted (roomId (Room ''room_abc_1000'' 1 0 1000)) (userId (heap t ! 0)))}"
    "((socketId (heap t ! q), CallAccepted (roomId (Room ''room_abc_1000'' 1 0 1000)) (userId (heap t ! 0)))
               \<in> set (delivered t (env0, Receive ''sA'' AcceptCall)) \<longleftrightarrow>
            socketId (heap t ! q) \<in> set (sockets t) \<and>
            (socketId (heap t ! q), roomId (Room ''room_abc_1000'' 1 0 1000)) \<in> set (joined t))"
    by blast
  from q(1) have q1: "q = 1" by (auto simp: Room_def doubleton_eq_iff)
  from q(2) t5 t6 have B1: "set (delivered t (env0, Receive ''sA'' (OfferMsg (JStr ''v=0'') (JStr ''offer'')))) = {}"
    unfolding q1 by simp
  from q(5) t5 t6 have nb: "(''sB'', CallAccepted ''room_abc_1000'' ''A'') \<notin> set (delivered t (env0, Receive ''sA'' AcceptCall))"
    unfolding q1 by (simp add: Room_def)
  from q(3,4) t5 have "(''sA'', CallAccepted ''room_abc_1000'' ''A'') \<in> set (delivered t (env0, Receive ''sA'' AcceptCall))"
    "set (delivered t (env0, Receive ''sA'' AcceptCall)) \<subseteq>
       {(''sA'', CallAccepted ''room_abc_1000'' ''A''), (''sB'', CallAccepted ''room_abc_1000'' ''A'')}"
    unfolding q1 by (simp_all add: Room_def)
  with nb have B2: "set (delivered t (env0, Receive ''sA'' AcceptCall)) = {(''sA'', CallAccepted ''room_abc_1000'' ''A'')}"
    by blast
  from A B1 B2 show ?thesis unfolding s_def[symmetric] t_def xs_def by simp
qed

subsection \<open>C7: the other member of a room\<close>

text \<open>
  C7, as stated, has \<^verbatim>\<open>getOtherUser\<close> fail when the user id is that of neither member.
  The method returns the first member whose user id differs from the argument, so for a
  stranger's id it returns the first member.
\<close>

theorem C7_neither_member_counterexample:
  "getOtherUser [User ''sA'' ''A'' no_profile 0, User ''sB'' ''B'' no_profile 0]
     (Room ''room_abc_1000'' 0 1 0) ''C'' = Some 0"
  by (simp add: getOtherUser_def Room_def User_def)

text \<open>
  C7 (amended): for a room of two members, \<^verbatim>\<open>getOtherUser\<close> returns the second member when
  only the first has the given user id, the first member whenever the first has another
  user id (so also when the id is that of neither), and nothing only when both members
  have the given user id.
\<close>

theorem C7_getOtherUser_cases:
  assumes "users r = [x, y]"
  shows "(userId (h ! x) = uid \<and> userId (h ! y) \<noteq> uid \<longrightarrow> getOtherUser h r uid = Some y) \<and>
         (userId (h ! x) \<noteq> uid \<longrightarrow> getOtherUser h r uid = Some x) \<and>
         (userId (h ! x) = uid \<and> userId (h ! y) = uid \<longrightarrow> getOtherUser h r uid = None)"
  using assms by (simp add: getOtherUser_def)

text \<open>The three cases of the amended C7 on concrete rooms.\<close>

theorem C7_getOtherUser_cases_witness:
  "getOtherUser [User ''sA'' ''A'' no_profile 0, User ''sB'' ''B'' no_profile 0]
     (Room ''room_abc_1000'' 0 1 0) ''A'' = Some 1 \<and>
   getOtherUser [User ''sA'' ''A'' no_profile 0, User ''sB'' ''B'' no_profile 0]
     (Room ''room_abc_1000'' 0 1 0) ''B'' = Some 0 \<and>
   getOtherUser [User ''sA'' ''A'' no_profile 0, User ''sB'' ''A'' no_profile 0]
     (Room ''room_abc_1000'' 0 1 0) ''A'' = None"
  using C7_getOtherUser_cases
     [of "Room ''room_abc_1000'' 0 1 0" 0 1
         "[User ''sA'' ''A'' no_profile 0, User ''sB'' ''B'' no_profile 0]" "''A''"]
    C7_getOtherUser_cases
     [of "Room ''room_abc_1000'' 0 1 0" 0 1
         "[User ''sA'' ''A'' no_profile 0, User ''sB'' ''B'' no_profile 0]" "''B''"]
    C7_getOtherUser_cases
     [of "Room ''room_abc_1000'' 0 1 0" 0 1
         "[User ''sA'' ''A'' no_profile 0, User ''sB'' ''A'' no_profile 0]" "''A''"]
  by (simp add: Room_def User_def)



subsection \<open>C8: after the search timeout\<close>

text \<open>
  C8: take a run in which room ids are fresh and connection ids are not room names, and a
  search timeout that fires for connection \<open>c\<close> while its entry is still queued. The
  timeout emits \<^verbatim>\<open>partner-search-timeout\<close> to \<open>c\<close> and removes the entry. From then on, as
  long as \<open>c\<close> does not itself search again, \<open>c\<close> is not in the queue in any later state,
  no \<^verbatim>\<open>findPartner\<close> of any later state returns the participant of \<open>c\<close>, and none of the
  later messages delivered to \<open>c\<close> is \<^verbatim>\<open>partner-found\<close> or \<^verbatim>\<open>incoming-call\<close>.
\<close>

theorem C8_timed_out_not_matched:
  assumes "run_ok (init_with pr) (xs @ (e, TimerFires c a) # ys)"
    and "s = exec (init_with pr) xs"
    and "(c, a) \<in> set (timers s)" "isWaiting (heap s ! a)" "c \<in> set (waitingUsers s)"
    and "s' = fst (step s (e, TimerFires c a))"
    and "\<forall>y \<in> set ys. snd y \<noteq> Receive c FindRandomPartner"
  shows "snd (step s (e, TimerFires c a)) = [(ToSocket c, PartnerSearchTimeout)] \<and>
         (\<forall>n. c \<notin> set (waitingUsers (exec s' (take n ys)))) \<and>
         (\<forall>n u p. findPartner (exec s' (take n ys)) u = Some p \<longrightarrow>
                   map_of (connectedUsers (exec s' (take n ys))) c \<noteq> Some p) \<and>
         (\<forall>m. (c, m) \<in> set (all_delivered s' ys) \<longrightarrow> \<not> is_match_notice m)"
proof -
  from assms(1) have r: "run_ok (init_with pr) xs" "env_ok s (e, TimerFires c a)" "run_ok s' ys"
    by (simp_all add: run_ok_append assms(2,6))
  have i: "inv s" unfolding assms(2) using inv_init r(1) by (rule inv_exec)
  have i': "inv s'" unfolding assms(6) using i r(2) by (rule inv_step)
  have out: "snd (step s (e, TimerFires c a)) = [(ToSocket c, PartnerSearchTimeout)]"
    using assms(3,4,5) by (simp add: searchTimeout_def)
  have w: "c \<notin> set (waitingUsers s')"
    using assms(3,4,5) by (simp add: assms(6) searchTimeout_def set_delete_def)
  from after_timeout_run[OF i' r(3) w assms(7)] out show ?thesis by blast
qed

text \<open>C8 in the scenario: \<open>A\<close> waits, its timeout fires, then \<open>B\<close> searches and \<open>A\<close>
  pings; \<open>B\<close> is queued, \<open>A\<close> stays out of the queue and the one message it receives is
  no notice of a match.\<close>

theorem C8_timed_out_not_matched_witness:
  "run_ok init (scenario_waiting @ (env0, TimerFires ''sA'' 0) #
                  [(env0, Receive ''sB'' FindRandomPartner), (env0, Receive ''sA'' Ping)]) \<and>
   (''sA'', 0) \<in> set (timers (exec init scenario_waiting)) \<and>
   isWaiting (heap (exec init scenario_waiting) ! 0) \<and>
   ''sA'' \<in> set (waitingUsers (exec init scenario_waiting)) \<and>
   ''sA'' \<notin> set (waitingUsers (exec (fst (step (exec init scenario_waiting) (env0, TimerFires ''sA'' 0)))
                  [(env0, Receive ''sB'' FindRandomPartner), (env0, Receive ''sA'' Ping)])) \<and>
   all_delivered (fst (step (exec init scenario_waiting) (env0, TimerFires ''sA'' 0)))
                  [(env0, Receive ''sB'' FindRandomPartner), (env0, Receive ''sA'' Ping)] =
     [(''sB'', SearchingForPartner), (''sA'', Pong)] \<and>
   \<not> is_match_notice Pong"
proof -
  define ys where "ys = [(env0, Receive ''sB'' FindRandomPartner), (env0, Receive ''sA'' Ping)]"
  have 1: "run_ok (init_with default_prefs) (scenario_waiting @ (env0, TimerFires ''sA'' 0) # ys)"
    unfolding ys_def by code_simp
  have 2: "exec init scenario_waiting = exec (init_with default_prefs) scenario_waiting"
    by (simp add: init_def)
  have 3: "(''sA'', 0) \<in> set (timers (exec init scenario_waiting))" by code_simp
  have 4: "isWaiting (heap (exec init scenario_waiting) ! 0)" by code_simp
  have 5: "''sA'' \<in> set (waitingUsers (exec init scenario_waiting))" by code_simp
  have 6: "\<forall>y \<in> set ys. snd y \<noteq> Receive ''sA'' FindRandomPartner" by (simp add: ys_def)
  have 7: "take 2 ys = ys" by (simp add: ys_def)
  have 8: "all_delivered (fst (step (exec init scenario_waiting) (env0, TimerFires ''sA'' 0))) ys =
             [(''sB'', SearchingForPartner), (''sA'', Pong)]"
    unfolding ys_def by code_simp
  from C8_timed_out_not_matched[OF 1 2 3 4 5 refl 6]
  have w: "\<forall>n. ''sA'' \<notin> set (waitingUsers (exec (fst (step (exec init scenario_waiting)
                 (env0, TimerFires ''sA'' 0))) (take n ys)))"
    and n: "\<forall>m. (''sA'', m) \<in> set (all_delivered (fst (step (exec init scenario_waiting)
                 (env0, TimerFires ''sA'' 0))) ys) \<longrightarrow> \<not> is_match_notice m"
    by blast+
  from w have w2: "''sA'' \<notin> set (waitingUsers (exec (fst (step (exec init scenario_waiting)
                 (env0, TimerFires ''sA'' 0))) (take 2 ys)))"
    by blast
  from n 8 have "\<not> is_match_notice Pong" by simp
  with 1 3 4 5 8 w2 show ?thesis unfolding 7 unfolding ys_def init_def by blast
qed

subsection \<open>C9: closing a session twice\<close>

text \<open>
  C9: in every reachable state, a second close of a session is a silent no-op. After
  \<^verbatim>\<open>end-call\<close> by a connection, \<^verbatim>\<open>end-call\<close> again by the same connection returns the
  state as it is and emits nothing, and so does \<^verbatim>\<open>end-call\<close> after the connection's
  \<^verbatim>\<open>disconnect\<close>. When the connection held a session with a peer, \<^verbatim>\<open>end-call\<close> by the
  peer after the connection's \<^verbatim>\<open>end-call\<close>, \<^verbatim>\<open>reject-call\<close> or \<^verbatim>\<open>disconnect\<close>, and
  \<^verbatim>\<open>end-call\<close> by the connection after its own \<^verbatim>\<open>reject-call\<close>, change nothing and emit
  nothing either. The handlers are total functions of the state: no path of them throws.
\<close>

theorem C9_close_idempotent:
  assumes "s = exec (init_with pr) xs"
  shows "endCall (fst (endCall s c)) c = (fst (endCall s c), []) \<and>
         endCall (fst (disconnect s c)) c = (fst (disconnect s c), []) \<and>
         (\<forall>r a p. activeSession s c = Some r \<and> map_of (connectedUsers s) c = Some a \<and>
                  getOtherUser (heap s) r (userId (heap s ! a)) = Some p \<longrightarrow>
            endCall (fst (endCall s c)) (socketId (heap s ! p)) = (fst (endCall s c), []) \<and>
            endCall (fst (rejectCall s c)) (socketId (heap s ! p)) = (fst (rejectCall s c), []) \<and>
            endCall (fst (rejectCall s c)) c = (fst (rejectCall s c), []) \<and>
            endCall (fst (disconnect s c)) (socketId (heap s ! p)) = (fst (disconnect s c), []))"
proof -
  have ir: "inv_reg s" unfolding assms by (rule inv_reg_reachable)
  show ?thesis
    using endCall_twice[OF ir] disconnect_then_endCall close_then_endCall[OF ir] by blast
qed

text \<open>C9 in the scenario: \<open>A\<close> ends the call (which changes the state); a second
  \<^verbatim>\<open>end-call\<close> by \<open>A\<close> or by \<open>B\<close> does nothing, and neither does \<open>B\<close>'s after \<open>A\<close>
  disconnected.\<close>

theorem C9_close_idempotent_witness:
  "activeSession (exec init scenario_matched) ''sA'' \<noteq> None \<and>
   fst (endCall (exec init scenario_matched) ''sA'') \<noteq> exec init scenario_matched \<and>
   endCall (fst (endCall (exec init scenario_matched) ''sA'')) ''sA'' =
     (fst (endCall (exec init scenario_matched) ''sA''), []) \<and>
   endCall (fst (endCall (exec init scenario_matched) ''sA'')) ''sB'' =
     (fst (endCall (exec init scenario_matched) ''sA''), []) \<and>
   endCall (fst (disconnect (exec init scenario_matched) ''sA'')) ''sB'' =
     (fst (disconnect (exec init scenario_matched) ''sA''), [])"
proof -
  have 1: "exec init scenario_matched = exec (init_with default_prefs) scenario_matched"
    by (simp add: init_def)
  have 2: "activeSession (exec init scenario_matched) ''sA'' = Some (Room ''room_abc_1000'' 1 0 1000)"
    by code_simp
  have 3: "map_of (connectedUsers (exec init scenario_matched)) ''sA'' = Some 0" by code_simp
  have 4: "getOtherUser (heap (exec init scenario_matched)) (Room ''room_abc_1000'' 1 0 1000)
             (userId (heap (exec init scenario_matched) ! 0)) = Some 1" by code_simp
  have 5: "socketId (heap (exec init scenario_matched) ! 1) = ''sB''" by code_simp
  have 6: "fst (endCall (exec init scenario_matched) ''sA'') \<noteq> exec init scenario_matched" by code_simp
  from C9_close_idempotent[OF 1, of "''sA''"] 2 3 4 5 6 show ?thesis by simp
qed

subsection \<open>C10: the clock of the sweep\<close>




end
